theory Spec2Isabelle
  imports Complex_Main "HOL-Library.Monad_Syntax" "HOL-Library.Word" "HOL-Library.Multiset"
begin

section \<open>Boruvka minimum spanning tree (\<^verbatim>\<open>gunrock/algorithms/mst.hxx\<close>)\<close>

text \<open>
  The embedding follows \<^verbatim>\<open>mst.hxx\<close> function by function. Conventions:
  \<^item> \<^verbatim>\<open>vertex_t\<close> and \<^verbatim>\<open>edge_t\<close> are \<^verbatim>\<open>int\<close>. Vertex and edge ids are only compared
    and used as indices, never computed with, so they are modelled as \<open>int\<close>; the
    two counters that are incremented (\<^verbatim>\<open>mst_edges[0]\<close>, \<^verbatim>\<open>super_vertices[0]\<close>) are
    32-bit words, whose \<open>+\<close> wraps as the device's atomic add does.
  \<^item> \<^verbatim>\<open>weight_t\<close> is \<^verbatim>\<open>float\<close>. A weight is modelled as the \<open>real\<close> it denotes: the
    comparisons \<^verbatim>\<open><\<close>, \<^verbatim>\<open>==\<close>, \<^verbatim>\<open>!=\<close> and min of finite floats are exact. The
    addition into \<^verbatim>\<open>mst_weight[0]\<close> rounds: it is the parameter \<open>fadd\<close> of the commit
    lambda, of the round and of the enactor, and \<open>binary32_add\<close> is the addition of
    IEEE 754 single precision. NaN and the infinities are not modelled.
  \<^item> A device array is a list. Reading or writing outside the array, which is
    undefined behaviour in the source, is the value \<open>None\<close>; so is a loop that
    never ends (\<^theory_text>\<open>partial_function (option)\<close>).
  \<^item> A bulk operator runs its lambda once per element, in parallel. A phase is
    modelled by one sequential order of the calls, the order of the list it is
    given, each call running to its end before the next starts. The lambdas of the
    four filters touch shared cells through at most one atomic read-modify-write, so
    every parallel run of a filter is one such order. The commit lambda reads
    \<^verbatim>\<open>new_roots[dest]\<close> outside any atomic, a race the source records in a comment;
    the orders modelled are the ones in which no call is interleaved with another.
\<close>

subsection \<open>Arrays\<close>

definition elem :: "'a list \<Rightarrow> int \<Rightarrow> 'a option" where
  "elem xs i = (if 0 \<le> i \<and> i < int (length xs) then Some (xs ! nat i) else None)"

definition store :: "'a list \<Rightarrow> int \<Rightarrow> 'a \<Rightarrow> 'a list option" where
  "store xs i v = (if 0 \<le> i \<and> i < int (length xs) then Some (xs[nat i := v]) else None)"

text \<open>\<^verbatim>\<open>thrust::device_vector::resize\<close>: new elements are value-initialised.\<close>

definition resize :: "nat \<Rightarrow> 'a::zero list \<Rightarrow> 'a list" where
  "resize n xs = take n xs @ replicate (n - length xs) 0"

text \<open>\<^verbatim>\<open>thrust::fill(first, last, v)\<close> over a whole vector, and \<^verbatim>\<open>thrust::fill_n\<close>.\<close>

definition fill :: "'a list \<Rightarrow> 'a \<Rightarrow> 'a list" where
  "fill xs v = replicate (length xs) v"

definition fill_n :: "'a list \<Rightarrow> nat \<Rightarrow> 'a \<Rightarrow> 'a list option" where
  "fill_n xs n v = (if n \<le> length xs then Some (replicate n v @ drop n xs) else None)"

text \<open>\<^verbatim>\<open>thrust::sequence(first, last, init)\<close>: \<open>init, init + 1, ...\<close>\<close>

definition sequence_from :: "'a list \<Rightarrow> int \<Rightarrow> int list" where
  "sequence_from xs init = map (\<lambda>i. init + int i) [0..<length xs]"

text \<open>\<^verbatim>\<open>thrust::copy_n(src, n, dst)\<close>\<close>

definition copy_n :: "'a list \<Rightarrow> nat \<Rightarrow> 'a list \<Rightarrow> 'a list option" where
  "copy_n src n dst =
     (if n \<le> length src \<and> n \<le> length dst then Some (take n src @ drop n dst) else None)"

subsection \<open>The graph\<close>

text \<open>
  Modelled from the spec: the graph container (\<^verbatim>\<open>graph_t\<close>) is not part of the
  sources at hand. The spec lists what it offers: \<^verbatim>\<open>vertex_count()\<close>,
  \<^verbatim>\<open>edge_count()\<close>, and source vertex, destination vertex and weight by edge id.
  An edge id outside \<open>0 ..< edge_count\<close> is an out-of-range read.
\<close>

type_synonym vertex_t = int
type_synonym edge_t = int
type_synonym weight_t = real

record graph_t =
  number_of_vertices :: nat
  edges :: "(vertex_t \<times> vertex_t \<times> weight_t) list"

definition get_number_of_vertices :: "graph_t \<Rightarrow> nat" where
  "get_number_of_vertices G = number_of_vertices G"

definition get_number_of_edges :: "graph_t \<Rightarrow> nat" where
  "get_number_of_edges G = length (edges G)"

definition get_source_vertex :: "graph_t \<Rightarrow> edge_t \<Rightarrow> vertex_t option" where
  "get_source_vertex G e = map_option fst (elem (edges G) e)"

definition get_destination_vertex :: "graph_t \<Rightarrow> edge_t \<Rightarrow> vertex_t option" where
  "get_destination_vertex G e = map_option (fst \<circ> snd) (elem (edges G) e)"

definition get_edge_weight :: "graph_t \<Rightarrow> edge_t \<Rightarrow> weight_t option" where
  "get_edge_weight G e = map_option (snd \<circ> snd) (elem (edges G) e)"

subsection \<open>The problem state (\<^verbatim>\<open>problem_t\<close>)\<close>

text \<open>\<^verbatim>\<open>std::numeric_limits<float>::max()\<close>\<close>

definition weight_max :: weight_t where
  "weight_max = 340282346638528859811704183484516925440"

record problem_t =
  mst_weight :: weight_t
  roots :: "vertex_t list"
  new_roots :: "vertex_t list"
  min_weights :: "weight_t list"
  mst_edges :: "32 word list"
  super_vertices :: "32 word list"
  min_neighbors :: "int list"

text \<open>The members as the constructor leaves them: every vector empty. The field
  \<open>mst_weight\<close> is the caller's cell \<^verbatim>\<open>result.mst_weight[0]\<close>, which holds whatever
  it held.\<close>

definition constructed :: "weight_t \<Rightarrow> problem_t" where
  "constructed w0 = \<lparr>mst_weight = w0, roots = [], new_roots = [], min_weights = [],
     mst_edges = [], super_vertices = [], min_neighbors = []\<rparr>"

definition init :: "graph_t \<Rightarrow> problem_t \<Rightarrow> problem_t" where
  "init G P =
    (let n_vertices = get_number_of_vertices G;
         roots1 = resize n_vertices (roots P);
         new_roots1 = resize n_vertices (new_roots P);
         min_weights1 = resize n_vertices (min_weights P);
         min_neighbors1 = resize n_vertices (min_neighbors P);
         mst_edges1 = resize 1 (mst_edges P);
         super_vertices1 = resize 1 (super_vertices P)
     in \<lparr>mst_weight = 0,
         roots = sequence_from roots1 0,
         new_roots = sequence_from new_roots1 0,
         min_weights = fill min_weights1 weight_max,
         mst_edges = mst_edges1,
         super_vertices = map word_of_int (sequence_from super_vertices1 (int n_vertices)),
         min_neighbors = fill min_neighbors1 (- 1)\<rparr>)"

subsection \<open>Atomics\<close>

text \<open>
  Modelled from the spec: \<^verbatim>\<open>math::atomic::min\<close>, \<^verbatim>\<open>max\<close> and \<^verbatim>\<open>add\<close> live in
  \<^verbatim>\<open>math.hxx\<close>, which is not part of the sources at hand. Each updates one cell
  and returns the value the cell held immediately before the update.
\<close>

definition atomic_min :: "weight_t list \<Rightarrow> int \<Rightarrow> weight_t \<Rightarrow> (weight_t list \<times> weight_t) option" where
  "atomic_min xs i v = do { old \<leftarrow> elem xs i; Some (xs[nat i := min old v], old) }"

definition atomic_max :: "int list \<Rightarrow> int \<Rightarrow> int \<Rightarrow> (int list \<times> int) option" where
  "atomic_max xs i v = do { old \<leftarrow> elem xs i; Some (xs[nat i := max old v], old) }"

definition atomic_add :: "'a::plus list \<Rightarrow> int \<Rightarrow> 'a \<Rightarrow> ('a list \<times> 'a) option" where
  "atomic_add xs i v = do { old \<leftarrow> elem xs i; Some (xs[nat i := old + v], old) }"

subsection \<open>Float addition\<close>

text \<open>
  Modelled from the spec: \<^verbatim>\<open>math::atomic::add\<close> on the \<^verbatim>\<open>float\<close> cell \<^verbatim>\<open>mst_weight[0]\<close>
  stores the sum the device computes, which is rounded to a \<^verbatim>\<open>float\<close>. Neither
  \<^verbatim>\<open>math.hxx\<close> nor the device is part of the sources at hand, so the model takes
  that addition as a parameter \<open>fadd\<close>. \<open>binary32_add\<close> is the addition of IEEE 754
  single precision: the exact sum rounded to the nearest number with a 24-bit
  significand, ties to the even significand, with the subnormal numbers below
  \<open>pow2 (- 126)\<close>. A sum that rounds beyond the largest float is an infinity on the
  device; the model has no infinity, and \<open>binary32_add\<close> is only used here on sums
  far below that.
\<close>

definition pow2 :: "int \<Rightarrow> real" where
  "pow2 k = (if 0 \<le> k then 2 ^ nat k else 1 / 2 ^ nat (- k))"

text \<open>\<open>pow2 k\<close> is two to the power \<open>k\<close>. For a positive \<open>a\<close>, \<open>binary_exponent a\<close> is
  the \<open>e\<close> with \<open>pow2 e \<le> a < pow2 (e + 1)\<close>; \<open>round_half_even\<close> is the nearest
  integer, the even one at a tie.\<close>

function binary_exponent :: "real \<Rightarrow> int" where
  "binary_exponent a =
     (if 2 \<le> a then binary_exponent (a / 2) + 1
      else if 0 < a \<and> a < 1 then binary_exponent (a * 2) - 1
      else 0)"
  by pat_completeness auto
termination
proof (relation "measure (\<lambda>a. nat \<bar>\<lfloor>log 2 a\<rfloor>\<bar>)")
  show "wf (measure (\<lambda>a. nat \<bar>\<lfloor>log 2 a\<rfloor>\<bar>))" by simp
next
  fix a :: real assume a: "2 \<le> a"
  then have "log 2 (a / 2) = log 2 a - 1" by (simp add: log_divide)
  moreover have "1 \<le> log 2 a" using a by (simp add: le_log_iff)
  ultimately have "\<lfloor>log 2 (a / 2)\<rfloor> = \<lfloor>log 2 a\<rfloor> - 1" "1 \<le> \<lfloor>log 2 a\<rfloor>"
    by (simp_all add: le_floor_iff)
  then have "nat \<bar>\<lfloor>log 2 (a / 2)\<rfloor>\<bar> < nat \<bar>\<lfloor>log 2 a\<rfloor>\<bar>" by linarith
  then show "(a / 2, a) \<in> measure (\<lambda>a. nat \<bar>\<lfloor>log 2 a\<rfloor>\<bar>)" by simp
next
  fix a :: real assume "\<not> 2 \<le> a" and a: "0 < a \<and> a < 1"
  then have "log 2 (a * 2) = log 2 a + 1" by (simp add: log_mult)
  moreover have "log 2 a < 0" using a by simp
  then have "\<lfloor>log 2 a\<rfloor> \<le> - 1" by (simp add: floor_le_iff)
  ultimately have "\<lfloor>log 2 (a * 2)\<rfloor> = \<lfloor>log 2 a\<rfloor> + 1" "\<lfloor>log 2 a\<rfloor> \<le> - 1"
    by simp_all
  then have "nat \<bar>\<lfloor>log 2 (a * 2)\<rfloor>\<bar> < nat \<bar>\<lfloor>log 2 a\<rfloor>\<bar>" by linarith
  then show "(a * 2, a) \<in> measure (\<lambda>a. nat \<bar>\<lfloor>log 2 a\<rfloor>\<bar>)" by simp
qed

declare binary_exponent.simps [simp del]

definition round_half_even :: "real \<Rightarrow> int" where
  "round_half_even x =
     (let f = \<lfloor>x\<rfloor>; d = x - of_int f
      in if d < 1 / 2 then f else if 1 / 2 < d then f + 1 else if even f then f else f + 1)"

definition binary32_round :: "real \<Rightarrow> real" where
  "binary32_round x =
     (if x = 0 then 0
      else let a = \<bar>x\<bar>;
               e = max (binary_exponent a) (- 126);
               ulp = pow2 (e - 23)
           in sgn x * of_int (round_half_even (a / ulp)) * ulp)"

definition binary32_add :: "weight_t \<Rightarrow> weight_t \<Rightarrow> weight_t" where
  "binary32_add x y = binary32_round (x + y)"

subsection \<open>The lambdas of \<^verbatim>\<open>enactor_t::loop\<close>\<close>

definition get_min_weights :: "graph_t \<Rightarrow> problem_t \<Rightarrow> edge_t \<Rightarrow> (problem_t \<times> bool) option" where
  "get_min_weights G P e = do {
     source \<leftarrow> get_source_vertex G e;
     neighbor \<leftarrow> get_destination_vertex G e;
     weight \<leftarrow> get_edge_weight G e;
     rs \<leftarrow> elem (roots P) source;
     rn \<leftarrow> elem (roots P) neighbor;
     if rs \<noteq> rn then do {
       (mw, old_weight) \<leftarrow> atomic_min (min_weights P) rs weight;
       Some (P\<lparr>min_weights := mw\<rparr>, weight < old_weight)
     } else Some (P, False)
   }"

definition get_min_neighbors :: "graph_t \<Rightarrow> problem_t \<Rightarrow> edge_t \<Rightarrow> (problem_t \<times> bool) option" where
  "get_min_neighbors G P e = do {
     source \<leftarrow> get_source_vertex G e;
     weight \<leftarrow> get_edge_weight G e;
     rs \<leftarrow> elem (roots P) source;
     m \<leftarrow> elem (min_weights P) rs;
     if weight = m then do {
       (mn, old_val) \<leftarrow> atomic_max (min_neighbors P) rs e;
       if old_val < e then Some (P\<lparr>min_neighbors := mn\<rparr>, True)
       else Some (P\<lparr>min_neighbors := mn\<rparr>, False)
     } else Some (P, False)
   }"

definition remove_ties :: "graph_t \<Rightarrow> problem_t \<Rightarrow> edge_t \<Rightarrow> (problem_t \<times> bool) option" where
  "remove_ties G P e = do {
     source \<leftarrow> get_source_vertex G e;
     dest \<leftarrow> get_destination_vertex G e;
     weight \<leftarrow> get_edge_weight G e;
     rs \<leftarrow> elem (roots P) source;
     mn \<leftarrow> elem (min_neighbors P) rs;
     if e = mn then Some (P, True) else Some (P, False)
   }"

text \<open>The condition of \<^verbatim>\<open>remove_dups\<close> is a chain of \<^verbatim>\<open>||\<close>: a disjunct is only
  evaluated when the ones before it are false.\<close>

definition remove_dups :: "graph_t \<Rightarrow> problem_t \<Rightarrow> edge_t \<Rightarrow> (problem_t \<times> bool) option" where
  "remove_dups G P e = do {
     source \<leftarrow> get_source_vertex G e;
     dest \<leftarrow> get_destination_vertex G e;
     if source < dest then Some (P, True)
     else do {
       rd \<leftarrow> elem (roots P) dest;
       mn \<leftarrow> elem (min_neighbors P) rd;
       d' \<leftarrow> get_destination_vertex G mn;
       if d' \<noteq> source then Some (P, True)
       else do {
         rd2 \<leftarrow> elem (roots P) dest;
         mn2 \<leftarrow> elem (min_neighbors P) rd2;
         s' \<leftarrow> get_source_vertex G mn2;
         if s' \<noteq> dest then Some (P, True) else Some (P, False)
       }
     }
   }"

definition add_to_mst ::
  "(weight_t \<Rightarrow> weight_t \<Rightarrow> weight_t) \<Rightarrow> graph_t \<Rightarrow> problem_t \<Rightarrow> vertex_t \<Rightarrow> problem_t option" where
  "add_to_mst fadd G P v = do {
     m \<leftarrow> elem (min_weights P) v;
     if m \<noteq> weight_max then do {
       mn \<leftarrow> elem (min_neighbors P) v;
       source \<leftarrow> get_source_vertex G mn;
       dest \<leftarrow> get_destination_vertex G mn;
       let weight = m;
       cond \<leftarrow>
         (if source < dest then Some True
          else do {
            rd \<leftarrow> elem (roots P) dest;
            mnd \<leftarrow> elem (min_neighbors P) rd;
            d' \<leftarrow> get_destination_vertex G mnd;
            if d' \<noteq> source then Some True
            else do {
              rd2 \<leftarrow> elem (roots P) dest;
              mnd2 \<leftarrow> elem (min_neighbors P) rd2;
              s' \<leftarrow> get_source_vertex G mnd2;
              Some (s' \<noteq> dest)
            }
          });
       if cond then do {
         let w1 = fadd (mst_weight P) weight;
         (e1, _) \<leftarrow> atomic_add (mst_edges P) 0 1;
         (s1, _) \<leftarrow> atomic_add (super_vertices P) 0 (- 1);
         nr \<leftarrow> elem (new_roots P) dest;
         nrs \<leftarrow> store (new_roots P) v nr;
         Some (P\<lparr>mst_weight := w1, mst_edges := e1, super_vertices := s1, new_roots := nrs\<rparr>)
       } else Some P
     } else Some P
   }"

text \<open>The pointer chase of \<^verbatim>\<open>jump_pointers_parallel\<close>:
  \<^verbatim>\<open>while (roots[u] != u) u = roots[u];\<close>. It need not end.\<close>

partial_function (option) jump_loop :: "vertex_t list \<Rightarrow> vertex_t \<Rightarrow> vertex_t option" where
  "jump_loop rts u =
     (case elem rts u of
        None \<Rightarrow> None
      | Some r \<Rightarrow> if r \<noteq> u then jump_loop rts r else Some u)"

declare jump_loop.simps [code]

definition jump_pointers_parallel :: "problem_t \<Rightarrow> vertex_t \<Rightarrow> problem_t option" where
  "jump_pointers_parallel P v = do {
     u0 \<leftarrow> elem (roots P) v;
     u \<leftarrow> jump_loop (roots P) u0;
     nrs \<leftarrow> store (new_roots P) v u;
     Some (P\<lparr>new_roots := nrs\<rparr>)
   }"

subsection \<open>The bulk operators\<close>

text \<open>
  Modelled from the spec: the operator runtime is not part of the sources at hand.
  \<^verbatim>\<open>filter::execute\<close> calls the predicate on every element of the input frontier and
  keeps the elements for which it returns true; \<^verbatim>\<open>parallel_for::execute\<close> calls the
  lambda on every vertex \<open>0 ..< vertex_count\<close>. The calls run in the order of the list.
\<close>

fun filter_execute ::
  "(problem_t \<Rightarrow> edge_t \<Rightarrow> (problem_t \<times> bool) option) \<Rightarrow> problem_t \<Rightarrow> edge_t list
     \<Rightarrow> (problem_t \<times> edge_t list) option" where
  "filter_execute f P [] = Some (P, [])"
| "filter_execute f P (e # es) = do {
     (P1, keep) \<leftarrow> f P e;
     (P2, out) \<leftarrow> filter_execute f P1 es;
     Some (P2, if keep then e # out else out)
   }"

fun parallel_for_execute ::
  "(problem_t \<Rightarrow> vertex_t \<Rightarrow> problem_t option) \<Rightarrow> problem_t \<Rightarrow> vertex_t list \<Rightarrow> problem_t option" where
  "parallel_for_execute f P [] = Some P"
| "parallel_for_execute f P (v # vs) = do {
     P1 \<leftarrow> f P v;
     parallel_for_execute f P1 vs
   }"

definition vertices :: "graph_t \<Rightarrow> vertex_t list" where
  "vertices G = map int [0..<get_number_of_vertices G]"

subsection \<open>One round, and the enactor\<close>

text \<open>\<^verbatim>\<open>prepare_frontier\<close>: \<^verbatim>\<open>frontiers[0]\<close> holds every edge id.\<close>

definition prepare_frontier :: "graph_t \<Rightarrow> edge_t list" where
  "prepare_frontier G = map int [0..<get_number_of_edges G]"

text \<open>Lines 276 to 282 of \<^verbatim>\<open>loop\<close>: copy, jump pointers, copy.\<close>

definition contraction :: "graph_t \<Rightarrow> problem_t \<Rightarrow> problem_t option" where
  "contraction G P = do {
     r1 \<leftarrow> copy_n (new_roots P) (get_number_of_vertices G) (roots P);
     P2 \<leftarrow> parallel_for_execute jump_pointers_parallel (P\<lparr>roots := r1\<rparr>) (vertices G);
     r3 \<leftarrow> copy_n (new_roots P2) (get_number_of_vertices G) (roots P2);
     Some (P2\<lparr>roots := r3\<rparr>)
   }"

text \<open>\<^verbatim>\<open>loop\<close> reads \<^verbatim>\<open>frontiers[0]\<close> and leaves the narrowed frontier in
  \<^verbatim>\<open>frontiers[1]\<close>; it returns the new problem state and \<^verbatim>\<open>frontiers[1]\<close>.\<close>

definition loop ::
  "(weight_t \<Rightarrow> weight_t \<Rightarrow> weight_t) \<Rightarrow> graph_t \<Rightarrow> edge_t list \<Rightarrow> problem_t
     \<Rightarrow> (problem_t \<times> edge_t list) option" where
  "loop fadd G in_frontier P = do {
     mw \<leftarrow> fill_n (min_weights P) (get_number_of_vertices G) weight_max;
     mn \<leftarrow> fill_n (min_neighbors P) (get_number_of_vertices G) (- 1);
     (P1, f1) \<leftarrow> filter_execute (get_min_weights G) (P\<lparr>min_weights := mw, min_neighbors := mn\<rparr>) in_frontier;
     (P2, f2) \<leftarrow> filter_execute (get_min_neighbors G) P1 f1;
     (P3, f3) \<leftarrow> filter_execute (remove_ties G) P2 f2;
     (P4, f4) \<leftarrow> filter_execute (remove_dups G) P3 f3;
     P5 \<leftarrow> parallel_for_execute (add_to_mst fadd G) P4 (vertices G);
     P6 \<leftarrow> contraction G P5;
     Some (P6, f4)
   }"

definition is_converged :: "problem_t \<Rightarrow> bool option" where
  "is_converged P = do { s \<leftarrow> elem (super_vertices P) 0; Some (s = 1) }"

text \<open>
  Modelled from the spec: \<^verbatim>\<open>enactor_t::enact\<close> of the base class is not part of the
  sources at hand. The round controller of the spec: while not converged, run one
  round; when converged, stop. There is no bound on the number of rounds.
\<close>

partial_function (option) enact ::
  "(weight_t \<Rightarrow> weight_t \<Rightarrow> weight_t) \<Rightarrow> graph_t \<Rightarrow> edge_t list \<Rightarrow> problem_t \<Rightarrow> problem_t option" where
  "enact fadd G f0 P =
     do {
       c \<leftarrow> is_converged P;
       if c then Some P
       else do { (P1, f1) \<leftarrow> loop fadd G f0 P; enact fadd G f0 P1 }
     }"

declare enact.simps [code]

text \<open>\<^verbatim>\<open>run\<close> builds the problem, initialises it and enacts. The source returns the
  elapsed time and leaves the weight in the caller's cell; the model returns the final
  state, whose \<open>mst_weight\<close> is that cell. \<open>w0\<close> is what the cell held before.\<close>

definition run :: "(weight_t \<Rightarrow> weight_t \<Rightarrow> weight_t) \<Rightarrow> graph_t \<Rightarrow> weight_t \<Rightarrow> problem_t option" where
  "run fadd G w0 = enact fadd G (prepare_frontier G) (init G (constructed w0))"

subsection \<open>Well-formed inputs\<close>

text \<open>Every endpoint of an edge is a vertex; every id in a frontier is an edge id;
  the arrays of the problem have one cell per vertex, the two counters one cell, and
  every root pointer is a vertex.\<close>

definition valid_graph :: "graph_t \<Rightarrow> bool" where
  "valid_graph G = (\<forall>(s, d, w) \<in> set (edges G).
     0 \<le> s \<and> s < int (number_of_vertices G) \<and> 0 \<le> d \<and> d < int (number_of_vertices G))"

definition valid_edge_id :: "graph_t \<Rightarrow> edge_t \<Rightarrow> bool" where
  "valid_edge_id G e = (0 \<le> e \<and> e < int (length (edges G)))"

definition valid_frontier :: "graph_t \<Rightarrow> edge_t list \<Rightarrow> bool" where
  "valid_frontier G f = (\<forall>e \<in> set f. 0 \<le> e \<and> e < int (length (edges G)))"

definition valid_state :: "graph_t \<Rightarrow> problem_t \<Rightarrow> bool" where
  "valid_state G P =
     (length (roots P) = number_of_vertices G \<and>
      length (new_roots P) = number_of_vertices G \<and>
      length (min_weights P) = number_of_vertices G \<and>
      length (min_neighbors P) = number_of_vertices G \<and>
      length (mst_edges P) = 1 \<and> length (super_vertices P) = 1 \<and>
      (\<forall>r \<in> set (roots P). 0 \<le> r \<and> r < int (number_of_vertices G)) \<and>
      (\<forall>r \<in> set (new_roots P). 0 \<le> r \<and> r < int (number_of_vertices G)))"

subsection \<open>The vocabulary of the specification\<close>

text \<open>Source, destination and weight of a valid edge id; the component
  \<open>roots[v]\<close> of a vertex; the elected edge \<open>min_neighbor[roots[v]]\<close> of the
  component of a vertex.\<close>

definition source_of :: "graph_t \<Rightarrow> edge_t \<Rightarrow> vertex_t" where
  "source_of G e = fst (edges G ! nat e)"

definition destination_of :: "graph_t \<Rightarrow> edge_t \<Rightarrow> vertex_t" where
  "destination_of G e = fst (snd (edges G ! nat e))"

definition weight_of :: "graph_t \<Rightarrow> edge_t \<Rightarrow> weight_t" where
  "weight_of G e = snd (snd (edges G ! nat e))"

definition component :: "problem_t \<Rightarrow> vertex_t \<Rightarrow> vertex_t" where
  "component P v = roots P ! nat v"

definition elected_edge :: "problem_t \<Rightarrow> vertex_t \<Rightarrow> edge_t" where
  "elected_edge P v = min_neighbors P ! nat (component P v)"

text \<open>The elected edge of the component of \<open>d\<close> points back at \<open>(d, s)\<close>: its
  destination is \<open>s\<close> and its source is \<open>d\<close>.\<close>

definition points_back :: "graph_t \<Rightarrow> problem_t \<Rightarrow> vertex_t \<Rightarrow> vertex_t \<Rightarrow> bool" where
  "points_back G P s d =
     (destination_of G (elected_edge P d) = s \<and> source_of G (elected_edge P d) = d)"

text \<open>The elected-only filter and the reciprocity filter, in the spec's words.\<close>

definition keeps_elected_only :: "graph_t \<Rightarrow> problem_t \<Rightarrow> edge_t \<Rightarrow> bool" where
  "keeps_elected_only G P e = (e = elected_edge P (source_of G e))"

definition keeps_reciprocity :: "graph_t \<Rightarrow> problem_t \<Rightarrow> edge_t \<Rightarrow> bool" where
  "keeps_reciprocity G P e =
     (source_of G e < destination_of G e
      \<or> \<not> points_back G P (source_of G e) (destination_of G e))"

text \<open>The commit phase acts on \<open>v\<close>; and the state it leaves when it acts.\<close>

definition commits :: "graph_t \<Rightarrow> problem_t \<Rightarrow> vertex_t \<Rightarrow> bool" where
  "commits G P v =
     (min_weights P ! nat v \<noteq> weight_max \<and> keeps_reciprocity G P (min_neighbors P ! nat v))"

definition committed ::
  "(weight_t \<Rightarrow> weight_t \<Rightarrow> weight_t) \<Rightarrow> graph_t \<Rightarrow> problem_t \<Rightarrow> vertex_t \<Rightarrow> problem_t" where
  "committed fadd G P v =
     P\<lparr>mst_weight := fadd (mst_weight P) (min_weights P ! nat v),
       mst_edges := [mst_edges P ! 0 + 1],
       super_vertices := [super_vertices P ! 0 - 1],
       new_roots := (new_roots P)[nat v := new_roots P ! nat (destination_of G (min_neighbors P ! nat v))]\<rparr>"

text \<open>Following the pointers of a roots array: \<open>follow rts k u\<close> is the vertex reached
  from \<open>u\<close> after \<open>k\<close> steps \<open>u \<mapsto> rts[u]\<close>, and \<open>None\<close> when a step leaves the array.
  It stands apart from the loop of the source, to say what that loop has to reach.\<close>

primrec follow :: "vertex_t list \<Rightarrow> nat \<Rightarrow> vertex_t \<Rightarrow> vertex_t option" where
  "follow rts 0 u = Some u"
| "follow rts (Suc k) u = (case elem rts u of None \<Rightarrow> None | Some r \<Rightarrow> follow rts k r)"

text \<open>The array the pointer chase computes from a roots array: cell \<open>v\<close> holds the
  fixed point reached from \<open>roots[v]\<close>.\<close>

definition chased :: "vertex_t list \<Rightarrow> vertex_t list" where
  "chased rts = map (\<lambda>v. the (jump_loop rts (rts ! v))) [0..<length rts]"

text \<open>The candidates of component \<open>c\<close> in a frontier: the edges whose source lies
  in \<open>c\<close> and whose weight equals \<open>min_weights[c]\<close>. \<open>highest x es\<close> is the
  largest of \<open>x\<close> and the ids \<open>es\<close>; \<open>selected\<close> is the \<open>min_neighbors\<close> array
  that holds, for every component, the highest of its old value and its candidates.\<close>

definition candidates :: "graph_t \<Rightarrow> problem_t \<Rightarrow> edge_t list \<Rightarrow> vertex_t \<Rightarrow> edge_t list" where
  "candidates G P f c =
     filter (\<lambda>e. component P (source_of G e) = c \<and> weight_of G e = min_weights P ! nat c) f"

definition highest :: "int \<Rightarrow> int list \<Rightarrow> int" where
  "highest x es = fold max es x"

definition selected :: "graph_t \<Rightarrow> problem_t \<Rightarrow> edge_t list \<Rightarrow> int list" where
  "selected G P f =
     map (\<lambda>c. highest (min_neighbors P ! c) (candidates G P f (int c))) [0..<number_of_vertices G]"


text \<open>An undirected graph stores every edge in both directions, with one weight.\<close>

definition undirected :: "graph_t \<Rightarrow> bool" where
  "undirected G = (\<forall>(s, d, w) \<in> set (edges G). (d, s, w) \<in> set (edges G))"

text \<open>What the relaxation phase has established when it has run over a frontier \<open>f\<close>
  from a state \<open>P\<close> whose \<open>min_weights\<close> cells all hold the sentinel, reaching the state
  \<open>Q\<close> and keeping the edges \<open>out\<close>: only \<open>min_weights\<close> changed; no cell exceeds the
  sentinel; a lowered cell holds the weight of a kept edge that leaves its component;
  every cell is at most the weight of every frontier edge that leaves its component for
  another; and every kept edge joins two components and weighs less than the sentinel.\<close>

definition relaxed :: "graph_t \<Rightarrow> problem_t \<Rightarrow> edge_t list \<Rightarrow> problem_t \<Rightarrow> edge_t list \<Rightarrow> bool" where
  "relaxed G P f Q out \<longleftrightarrow>
     (\<exists>mw. Q = P\<lparr>min_weights := mw\<rparr>) \<and> length (min_weights Q) = length (min_weights P)
   \<and> (\<forall>x \<in> set (min_weights Q). x \<le> weight_max)
   \<and> (\<forall>c < length (min_weights Q). min_weights Q ! c \<noteq> weight_max \<longrightarrow>
         (\<exists>e \<in> set out. component P (source_of G e) = int c \<and> weight_of G e = min_weights Q ! c))
   \<and> (\<forall>e \<in> set f. component P (source_of G e) \<noteq> component P (destination_of G e) \<longrightarrow>
         min_weights Q ! nat (component P (source_of G e)) \<le> weight_of G e)
   \<and> set out \<subseteq> set f
   \<and> (\<forall>e \<in> set out. component P (source_of G e) \<noteq> component P (destination_of G e)
         \<and> weight_of G e < weight_max)"

subsection \<open>Example inputs\<close>

text \<open>The cycle on four vertices of the spec, every edge stored in both directions:
  edge ids 0 to 7.\<close>

definition G4 :: graph_t where
  "G4 = \<lparr>number_of_vertices = 4,
     edges = [(0, 1, 1), (0, 3, 4), (1, 0, 1), (1, 2, 2), (2, 1, 2), (2, 3, 3), (3, 0, 4), (3, 2, 3)]\<rparr>"

text \<open>Its state in the first round: after relaxation, and after selection.\<close>

definition P4_relaxed :: problem_t where
  "P4_relaxed = \<lparr>mst_weight = 0, roots = [0, 1, 2, 3], new_roots = [0, 1, 2, 3],
     min_weights = [1, 1, 2, 3], mst_edges = [0], super_vertices = [4],
     min_neighbors = [- 1, - 1, - 1, - 1]\<rparr>"

definition P4_elected :: problem_t where
  "P4_elected = P4_relaxed\<lparr>min_neighbors := [0, 2, 4, 7]\<rparr>"

text \<open>The same state with an accumulated weight of \<open>2 ^ 25\<close>, where neighbouring floats
  are four apart.\<close>

definition P4_large :: problem_t where
  "P4_large = P4_elected\<lparr>mst_weight := 33554432\<rparr>"

text \<open>A state whose \<open>new_roots\<close> hold the chain \<open>0 \<rightarrow> 1 \<rightarrow> 2 \<rightarrow> 3\<close>, of length three.\<close>

definition P4_chains :: problem_t where
  "P4_chains = P4_elected\<lparr>new_roots := [1, 2, 3, 3]\<rparr>"

text \<open>Three vertices; edges 0 and 1 leave vertex 0 with the same weight.\<close>

definition G3_tie :: graph_t where
  "G3_tie = \<lparr>number_of_vertices = 3, edges = [(0, 1, 5), (0, 2, 5), (1, 0, 5), (2, 0, 5)]\<rparr>"

text \<open>Two disjoint triangles, every edge stored in both directions; the state after
  the first round, and the state every later round starts from and ends in.\<close>

definition G6 :: graph_t where
  "G6 = \<lparr>number_of_vertices = 6,
     edges = [(0, 1, 1), (0, 2, 3), (1, 0, 1), (1, 2, 2), (2, 0, 3), (2, 1, 2),
              (3, 4, 1), (3, 5, 3), (4, 3, 1), (4, 5, 2), (5, 3, 3), (5, 4, 2)]\<rparr>"

definition P6_round1 :: problem_t where
  "P6_round1 = \<lparr>mst_weight = 6, roots = [1, 1, 1, 4, 4, 4], new_roots = [1, 1, 1, 4, 4, 4],
     min_weights = [1, 1, 2, 1, 1, 2], mst_edges = [4], super_vertices = [2],
     min_neighbors = [0, 2, 5, 6, 8, 11]\<rparr>"

definition P6_stuck :: problem_t where
  "P6_stuck = P6_round1\<lparr>
     min_weights := [weight_max, weight_max, weight_max, weight_max, weight_max, weight_max],
     min_neighbors := [- 1, - 1, - 1, - 1, - 1, - 1]\<rparr>"





definition P4_final :: problem_t where
  "P4_final = \<lparr>mst_weight = 6, roots = [1, 1, 1, 1], new_roots = [1, 1, 1, 1],
     min_weights = [1, 1, 2, 3], mst_edges = [3], super_vertices = [1],
     min_neighbors = [0, 2, 4, 7]\<rparr>"

text \<open>A directed graph: one edge, from vertex 1 to vertex 0; and its state in the
  first round, after relaxation and after selection.\<close>

definition G2_directed :: graph_t where
  "G2_directed = \<lparr>number_of_vertices = 2, edges = [(1, 0, 1)]\<rparr>"

definition P2_directed_relaxed :: problem_t where
  "P2_directed_relaxed = \<lparr>mst_weight = 0, roots = [0, 1], new_roots = [0, 1],
     min_weights = [weight_max, 1], mst_edges = [0], super_vertices = [2],
     min_neighbors = [- 1, - 1]\<rparr>"

definition P2_directed_elected :: problem_t where
  "P2_directed_elected = P2_directed_relaxed\<lparr>min_neighbors := [- 1, 0]\<rparr>"

section \<open>Properties\<close>

subsection \<open>Reading arrays and edges\<close>

lemma elem_Some_iff: "elem xs i = Some x \<longleftrightarrow> 0 \<le> i \<and> i < int (length xs) \<and> x = xs ! nat i"
  by (auto simp: elem_def)

lemma edge_accessors:
  "elem (edges G) e = Some (s, d, w) \<Longrightarrow>
     get_source_vertex G e = Some s \<and> get_destination_vertex G e = Some d \<and> get_edge_weight G e = Some w"
  by (simp add: get_source_vertex_def get_destination_vertex_def get_edge_weight_def)

lemma valid_edge:
  assumes "valid_graph G" "elem (edges G) e = Some (s, d, w)"
  shows "0 \<le> s \<and> s < int (number_of_vertices G) \<and> 0 \<le> d \<and> d < int (number_of_vertices G)"
proof -
  from assms(2) have "(s, d, w) \<in> set (edges G)"
    by (auto simp: elem_Some_iff)
  with assms(1) show ?thesis
    by (auto simp: valid_graph_def)
qed

lemma valid_root:
  assumes "valid_state G P" "0 \<le> v" "v < int (number_of_vertices G)"
  shows "\<exists>r. elem (roots P) v = Some r \<and> 0 \<le> r \<and> r < int (number_of_vertices G)"
proof -
  from assms have "nat v < length (roots P)" by (simp add: valid_state_def)
  then have "roots P ! nat v \<in> set (roots P)" by simp
  with assms show ?thesis by (auto simp: valid_state_def elem_def)
qed

lemma valid_edge_id_elem:
  "valid_edge_id G e \<Longrightarrow> elem (edges G) e = Some (source_of G e, destination_of G e, weight_of G e)"
  by (simp add: valid_edge_id_def elem_def source_of_def destination_of_def weight_of_def)

lemma valid_edge_id_vertices:
  assumes "valid_graph G" "valid_edge_id G e"
  shows "0 \<le> source_of G e" "source_of G e < int (number_of_vertices G)"
    "0 \<le> destination_of G e" "destination_of G e < int (number_of_vertices G)"
  using valid_edge[OF assms(1) valid_edge_id_elem[OF assms(2)]] by auto

lemma valid_frontier_id: "valid_frontier G f \<Longrightarrow> e \<in> set f \<Longrightarrow> valid_edge_id G e"
  by (simp add: valid_frontier_def valid_edge_id_def)

lemma valid_component:
  assumes "valid_state G P" "0 \<le> v" "v < int (number_of_vertices G)"
  shows "elem (roots P) v = Some (component P v)" "0 \<le> component P v"
    "component P v < int (number_of_vertices G)"
  using valid_root[OF assms] by (auto simp: component_def elem_def split: if_splits)

lemma valid_cells:
  assumes "valid_state G P" "0 \<le> c" "c < int (number_of_vertices G)"
  shows "elem (min_weights P) c = Some (min_weights P ! nat c)"
    "elem (min_neighbors P) c = Some (min_neighbors P ! nat c)"
    "elem (new_roots P) c = Some (new_roots P ! nat c)"
  using assms by (auto simp: valid_state_def elem_def)

subsection \<open>The bulk operators\<close>

lemma filter_execute_append:
  "filter_execute f P (xs @ ys) = do {
     (P1, o1) \<leftarrow> filter_execute f P xs;
     (P2, o2) \<leftarrow> filter_execute f P1 ys;
     Some (P2, o1 @ o2) }"
proof (induction xs arbitrary: P)
  case Nil
  show ?case by (simp split: option.splits prod.splits bind_splits)
next
  case (Cons x xs)
  show ?case by (simp add: Cons.IH split: option.splits prod.splits bind_splits)
qed

text \<open>A phase whose lambda is defined on, and preserves, an invariant \<open>I\<close> runs to
  its end and keeps a sublist of its frontier.\<close>

lemma filter_execute_total:
  assumes "\<And>P e. I P \<Longrightarrow> e \<in> set es \<Longrightarrow> \<exists>P' k. f P e = Some (P', k) \<and> I P'" "I P"
  shows "\<exists>P' out. filter_execute f P es = Some (P', out) \<and> I P' \<and> set out \<subseteq> set es"
  using assms
proof (induction es arbitrary: P)
  case Nil
  then show ?case by simp
next
  case (Cons e es)
  from Cons.prems obtain P1 k where 1: "f P e = Some (P1, k)" "I P1" by fastforce
  have "\<exists>P' out. filter_execute f P1 es = Some (P', out) \<and> I P' \<and> set out \<subseteq> set es"
    using Cons.prems(1) 1(2) by (intro Cons.IH) auto
  then obtain P' out where 2: "filter_execute f P1 es = Some (P', out)" "I P'" "set out \<subseteq> set es"
    by blast
  show ?case using 1 2 by auto
qed

lemma filter_execute_pure:
  assumes "\<And>e. e \<in> set f \<Longrightarrow> g P e = Some (P, keep e)"
  shows "filter_execute g P f = Some (P, filter keep f)"
  using assms by (induction f) simp_all

lemma parallel_for_execute_append:
  "parallel_for_execute f P (xs @ ys) =
     do { P1 \<leftarrow> parallel_for_execute f P xs; parallel_for_execute f P1 ys }"
  by (induction xs arbitrary: P) (simp_all split: bind_splits)

subsection \<open>Initialisation\<close>

text \<open>
  Claim C7. After initialisation of a freshly constructed problem, for every vertex
  \<open>v\<close>: \<open>roots[v] = v\<close> and \<open>new_roots[v] = v\<close>; every \<open>min_weights\<close> cell holds the
  sentinel \<open>weight_max\<close>; every \<open>min_neighbors\<close> cell holds \<open>-1\<close>; and the three
  scalars are set: \<open>mst_weight = 0\<close>, \<open>mst_edges = 0\<close> (the value-initialised cell of
  \<^verbatim>\<open>resize(1)\<close>) and \<open>super_vertices\<close> is the vertex count.
\<close>

theorem init_state:
  "length (roots (init G (constructed w0))) = get_number_of_vertices G
   \<and> length (new_roots (init G (constructed w0))) = get_number_of_vertices G
   \<and> length (min_weights (init G (constructed w0))) = get_number_of_vertices G
   \<and> length (min_neighbors (init G (constructed w0))) = get_number_of_vertices G
   \<and> (\<forall>v < get_number_of_vertices G.
         roots (init G (constructed w0)) ! v = int v
       \<and> new_roots (init G (constructed w0)) ! v = int v
       \<and> min_weights (init G (constructed w0)) ! v = weight_max
       \<and> min_neighbors (init G (constructed w0)) ! v = - 1)
   \<and> mst_weight (init G (constructed w0)) = 0
   \<and> mst_edges (init G (constructed w0)) = [0]
   \<and> super_vertices (init G (constructed w0)) = [word_of_int (int (get_number_of_vertices G))]
   \<and> (get_number_of_vertices G < 2 ^ 31 \<longrightarrow>
        sint (super_vertices (init G (constructed w0)) ! 0) = int (get_number_of_vertices G))"
proof -
  have "sint (word_of_nat n :: 32 word) = int n" if "n < 2 ^ 31" for n :: nat
  proof -
    have "int n < 2 ^ 31" using that by (metis of_nat_less_iff of_nat_numeral of_nat_power)
    then have "signed_take_bit 31 (int n) = int n"
      by (intro signed_take_bit_int_eq_self) auto
    then show ?thesis
      by (simp add: signed_of_nat)
  qed
  then show ?thesis
    by (simp add: init_def constructed_def resize_def fill_def sequence_from_def Let_def)
qed

theorem init_state_witness:
  "(3::nat) < get_number_of_vertices G4
   \<and> roots (init G4 (constructed 7)) ! 3 = 3
   \<and> new_roots (init G4 (constructed 7)) ! 3 = 3
   \<and> min_weights (init G4 (constructed 7)) ! 3 = weight_max
   \<and> min_neighbors (init G4 (constructed 7)) ! 3 = - 1
   \<and> mst_weight (init G4 (constructed 7)) = 0
   \<and> mst_edges (init G4 (constructed 7)) = [0]
   \<and> get_number_of_vertices G4 < 2 ^ 31
   \<and> sint (super_vertices (init G4 (constructed 7)) ! 0) = 4"
proof -
  have n: "get_number_of_vertices G4 = 4"
    by (simp add: get_number_of_vertices_def G4_def)
  from init_state[of G4 7] show ?thesis
    unfolding n by auto
qed

subsection \<open>What each phase leaves unchanged\<close>










subsection \<open>Edge relaxation\<close>

lemma get_min_weights_eval:
  assumes "elem (edges G) e = Some (s, d, w)" "elem (roots P) s = Some rs"
    "elem (roots P) d = Some rd" "elem (min_weights P) rs = Some old"
  shows "get_min_weights G P e =
     Some (if rs = rd then (P, False)
           else (P\<lparr>min_weights := (min_weights P)[nat rs := min old w]\<rparr>, w < old))"
  using assms edge_accessors[OF assms(1)] by (simp add: get_min_weights_def atomic_min_def)

lemma get_min_weights_valid:
  assumes "valid_graph G" "valid_state G P" "valid_edge_id G e"
  shows "\<exists>P' k. get_min_weights G P e = Some (P', k) \<and> valid_state G P' \<and> roots P' = roots P
     \<and> min_neighbors P' = min_neighbors P"
proof -
  note e = valid_edge_id_elem[OF assms(3)]
  note v = valid_edge_id_vertices[OF assms(1,3)]
  note cs = valid_component[OF assms(2) v(1,2)]
  note cd = valid_component[OF assms(2) v(3,4)]
  note m = valid_cells[OF assms(2) cs(2,3)]
  show ?thesis
    using get_min_weights_eval[OF e cs(1) cd(1) m(1)] assms(2)
    by (auto simp: valid_state_def)
qed

text \<open>
  Claim C1. The relaxation phase runs over a frontier \<open>es1 @ e # es2\<close>; \<open>P1\<close> is the
  state immediately before the call for \<open>e\<close>, \<open>P2\<close> the state immediately after it.
  When \<open>roots[src(e)] = roots[dst(e)]\<close> the edge is dropped and nothing is written.
  Otherwise \<open>min_weights[roots[src(e)]]\<close> is lowered to the minimum of its value
  \<open>old\<close> and the weight of \<open>e\<close>, and \<open>e\<close> is kept exactly when its weight is
  strictly below \<open>old\<close>.
\<close>

theorem relaxation_edge:
  assumes "valid_graph G" "valid_state G P" "valid_frontier G (es1 @ e # es2)"
  shows "\<exists>P1 out1 P2 keep P' out2 s d w rs rd old.
      filter_execute (get_min_weights G) P es1 = Some (P1, out1)
    \<and> get_min_weights G P1 e = Some (P2, keep)
    \<and> filter_execute (get_min_weights G) P2 es2 = Some (P', out2)
    \<and> filter_execute (get_min_weights G) P (es1 @ e # es2)
        = Some (P', out1 @ (if keep then [e] else []) @ out2)
    \<and> elem (edges G) e = Some (s, d, w)
    \<and> elem (roots P1) s = Some rs \<and> elem (roots P1) d = Some rd
    \<and> elem (min_weights P1) rs = Some old
    \<and> (rs = rd \<longrightarrow> \<not> keep \<and> P2 = P1)
    \<and> (rs \<noteq> rd \<longrightarrow> (keep \<longleftrightarrow> w < old)
          \<and> P2 = P1\<lparr>min_weights := (min_weights P1)[nat rs := min old w]\<rparr>)"
proof -
  let ?I = "valid_state G"
  have step: "\<exists>P' k. get_min_weights G Q x = Some (P', k) \<and> ?I P'"
    if "?I Q" "x \<in> set (es1 @ e # es2)" for Q x
    using get_min_weights_valid[OF assms(1) that(1) valid_frontier_id[OF assms(3) that(2)]]
    by blast
  obtain P1 out1 where 1: "filter_execute (get_min_weights G) P es1 = Some (P1, out1)" "?I P1"
    using filter_execute_total[of ?I es1 "get_min_weights G" P] step assms(2) by auto
  have ev: "valid_edge_id G e"
    using assms(3) by (auto intro: valid_frontier_id)
  define s d w where "s = source_of G e" and "d = destination_of G e" and "w = weight_of G e"
  have e: "elem (edges G) e = Some (s, d, w)"
    using valid_edge_id_elem[OF ev] by (simp add: s_def d_def w_def)
  have v: "0 \<le> s" "s < int (number_of_vertices G)" "0 \<le> d" "d < int (number_of_vertices G)"
    using valid_edge_id_vertices[OF assms(1) ev] by (simp_all add: s_def d_def)
  define rs rd where "rs = component P1 s" and "rd = component P1 d"
  have rs: "elem (roots P1) s = Some rs" "0 \<le> rs" "rs < int (number_of_vertices G)"
    using valid_component[of G P1 s] 1(2) v by (simp_all add: rs_def)
  have rd: "elem (roots P1) d = Some rd"
    using valid_component[of G P1 d] 1(2) v by (simp_all add: rd_def)
  define old where "old = min_weights P1 ! nat rs"
  have old: "elem (min_weights P1) rs = Some old"
    using valid_cells[of G P1 rs] 1(2) rs(2,3) by (simp add: old_def)
  define P2 where
    "P2 = (if rs = rd then P1 else P1\<lparr>min_weights := (min_weights P1)[nat rs := min old w]\<rparr>)"
  define keep where "keep \<longleftrightarrow> rs \<noteq> rd \<and> w < old"
  have 2: "get_min_weights G P1 e = Some (P2, keep)"
    using get_min_weights_eval[OF e rs(1) rd old] by (simp add: P2_def keep_def)
  have "?I P2" using 1(2) by (auto simp: P2_def valid_state_def)
  then obtain P' out2 where 3: "filter_execute (get_min_weights G) P2 es2 = Some (P', out2)"
    using filter_execute_total[of ?I es2 "get_min_weights G" P2] step by auto
  have 4: "filter_execute (get_min_weights G) P (es1 @ e # es2)
        = Some (P', out1 @ (if keep then [e] else []) @ out2)"
    using 1(1) 2 3 by (simp add: filter_execute_append)
  have 5: "rs = rd \<longrightarrow> \<not> keep \<and> P2 = P1"
    by (simp add: P2_def keep_def)
  have 6: "rs \<noteq> rd \<longrightarrow> (keep \<longleftrightarrow> w < old)
          \<and> P2 = P1\<lparr>min_weights := (min_weights P1)[nat rs := min old w]\<rparr>"
    by (simp add: P2_def keep_def)
  from 1(1) 2 3 4 e rs(1) rd old 5 6 show ?thesis by blast
qed

theorem relaxation_edge_witness:
  "valid_graph G4 \<and> valid_state G4 (init G4 (constructed 0)) \<and> valid_frontier G4 ([0] @ 1 # [2])
   \<and> (\<exists>P' out. filter_execute (get_min_weights G4) (init G4 (constructed 0)) ([0] @ 1 # [2])
         = Some (P', out))"
proof -
  have 1: "valid_graph G4" by code_simp
  have 2: "valid_state G4 (init G4 (constructed 0))" by code_simp
  have 3: "valid_frontier G4 ([0] @ 1 # [2])" by code_simp
  from relaxation_edge[OF 1 2 3] 1 2 3 show ?thesis by blast
qed

subsection \<open>Neighbour selection\<close>

lemma get_min_neighbors_eval:
  assumes "elem (edges G) e = Some (s, d, w)" "elem (roots P) s = Some rs"
    "elem (min_weights P) rs = Some m" "elem (min_neighbors P) rs = Some old"
  shows "get_min_neighbors G P e =
     Some (if w = m then (P\<lparr>min_neighbors := (min_neighbors P)[nat rs := max old e]\<rparr>, old < e)
           else (P, False))"
  using assms edge_accessors[OF assms(1)] by (simp add: get_min_neighbors_def atomic_max_def)

lemma get_min_neighbors_valid:
  assumes "valid_graph G" "valid_state G P" "valid_edge_id G e"
  shows "\<exists>P' k. get_min_neighbors G P e = Some (P', k) \<and> valid_state G P' \<and> roots P' = roots P
     \<and> min_weights P' = min_weights P"
proof -
  note e = valid_edge_id_elem[OF assms(3)]
  note v = valid_edge_id_vertices[OF assms(1,3)]
  note c = valid_component[OF assms(2) v(1,2)]
  note m = valid_cells[OF assms(2) c(2,3)]
  show ?thesis
    using get_min_neighbors_eval[OF e c(1) m(1,2)] assms(2)
    by (auto simp: valid_state_def)
qed

text \<open>
  Claim C2. The selection phase runs over a frontier \<open>es1 @ e # es2\<close>; \<open>P1\<close> is the
  state immediately before the call for \<open>e\<close>, \<open>P2\<close> the state immediately after it.
  The phase leaves \<open>roots\<close> and \<open>min_weights\<close> as relaxation left them. When the
  weight of \<open>e\<close> equals \<open>min_weights[roots[src(e)]]\<close>, the cell
  \<open>min_neighbors[roots[src(e)]]\<close> is raised to the maximum of its value \<open>old\<close> and
  \<open>e\<close>, and \<open>e\<close> is kept exactly when the cell strictly increased. Otherwise \<open>e\<close> is
  dropped and nothing is written.
\<close>

theorem selection_edge:
  assumes "valid_graph G" "valid_state G P" "valid_frontier G (es1 @ e # es2)"
  shows "\<exists>P1 out1 P2 keep P' out2 s d w rs m old.
      filter_execute (get_min_neighbors G) P es1 = Some (P1, out1)
    \<and> get_min_neighbors G P1 e = Some (P2, keep)
    \<and> filter_execute (get_min_neighbors G) P2 es2 = Some (P', out2)
    \<and> filter_execute (get_min_neighbors G) P (es1 @ e # es2)
        = Some (P', out1 @ (if keep then [e] else []) @ out2)
    \<and> elem (edges G) e = Some (s, d, w)
    \<and> roots P1 = roots P \<and> min_weights P1 = min_weights P
    \<and> elem (roots P) s = Some rs
    \<and> elem (min_weights P) rs = Some m
    \<and> elem (min_neighbors P1) rs = Some old
    \<and> (w = m \<longrightarrow> P2 = P1\<lparr>min_neighbors := (min_neighbors P1)[nat rs := max old e]\<rparr>
          \<and> (keep \<longleftrightarrow> old < min_neighbors P2 ! nat rs))
    \<and> (w \<noteq> m \<longrightarrow> \<not> keep \<and> P2 = P1)"
proof -
  let ?I = "\<lambda>Q. valid_state G Q \<and> roots Q = roots P \<and> min_weights Q = min_weights P"
  have step: "\<exists>P' k. get_min_neighbors G Q x = Some (P', k) \<and> ?I P'"
    if "?I Q" "x \<in> set (es1 @ e # es2)" for Q x
    using get_min_neighbors_valid[OF assms(1) _ valid_frontier_id[OF assms(3) that(2)], of Q] that(1)
    by auto
  obtain P1 out1 where 1: "filter_execute (get_min_neighbors G) P es1 = Some (P1, out1)" "?I P1"
    using filter_execute_total[of ?I es1 "get_min_neighbors G" P] step assms(2) by auto
  have ev: "valid_edge_id G e"
    using assms(3) by (auto intro: valid_frontier_id)
  define s d w where "s = source_of G e" and "d = destination_of G e" and "w = weight_of G e"
  have e: "elem (edges G) e = Some (s, d, w)"
    using valid_edge_id_elem[OF ev] by (simp add: s_def d_def w_def)
  have v: "0 \<le> s" "s < int (number_of_vertices G)"
    using valid_edge_id_vertices[OF assms(1) ev] by (simp_all add: s_def)
  define rs where "rs = component P1 s"
  have rs: "elem (roots P1) s = Some rs" "0 \<le> rs" "rs < int (number_of_vertices G)"
    using valid_component[of G P1 s] 1(2) v by (simp_all add: rs_def)
  define m old where "m = min_weights P1 ! nat rs" and "old = min_neighbors P1 ! nat rs"
  have mo: "elem (min_weights P1) rs = Some m" "elem (min_neighbors P1) rs = Some old"
    using valid_cells[of G P1 rs] 1(2) rs(2,3) by (simp_all add: m_def old_def)
  define P2 where
    "P2 = (if w = m then P1\<lparr>min_neighbors := (min_neighbors P1)[nat rs := max old e]\<rparr> else P1)"
  define keep where "keep \<longleftrightarrow> w = m \<and> old < e"
  have 2: "get_min_neighbors G P1 e = Some (P2, keep)"
    using get_min_neighbors_eval[OF e rs(1) mo] by (simp add: P2_def keep_def)
  have "?I P2" using 1(2) by (auto simp: P2_def valid_state_def)
  then obtain P' out2 where 3: "filter_execute (get_min_neighbors G) P2 es2 = Some (P', out2)"
    using filter_execute_total[of ?I es2 "get_min_neighbors G" P2] step by auto
  have 4: "filter_execute (get_min_neighbors G) P (es1 @ e # es2)
        = Some (P', out1 @ (if keep then [e] else []) @ out2)"
    using 1(1) 2 3 by (simp add: filter_execute_append)
  have len: "nat rs < length (min_neighbors P1)"
    using rs(2,3) 1(2) by (simp add: valid_state_def)
  have 5: "w = m \<longrightarrow> P2 = P1\<lparr>min_neighbors := (min_neighbors P1)[nat rs := max old e]\<rparr>
          \<and> (keep \<longleftrightarrow> old < min_neighbors P2 ! nat rs)"
    using len by (auto simp: P2_def keep_def)
  have 6: "w \<noteq> m \<longrightarrow> \<not> keep \<and> P2 = P1"
    by (simp add: P2_def keep_def)
  have 7: "roots P1 = roots P" "min_weights P1 = min_weights P" using 1(2) by simp_all
  from 1(1) 2 3 4 e rs(1) mo 5 6 7 show ?thesis
    by (metis (no_types, lifting))
qed

theorem selection_edge_witness:
  "valid_graph G4 \<and> valid_state G4 P4_relaxed \<and> valid_frontier G4 ([0, 2] @ 4 # [6, 7])
   \<and> (\<exists>P' out. filter_execute (get_min_neighbors G4) P4_relaxed ([0, 2] @ 4 # [6, 7])
         = Some (P', out))"
proof -
  have 1: "valid_graph G4" by code_simp
  have 2: "valid_state G4 P4_relaxed" by code_simp
  have 3: "valid_frontier G4 ([0, 2] @ 4 # [6, 7])" by code_simp
  from selection_edge[OF 1 2 3] 1 2 3 show ?thesis by blast
qed

subsection \<open>Symmetry breaking\<close>

lemma remove_ties_eval:
  assumes "valid_graph G" "valid_state G P" "valid_edge_id G e"
  shows "remove_ties G P e = Some (P, keeps_elected_only G P e)"
proof -
  note e = valid_edge_id_elem[OF assms(3)]
  note v = valid_edge_id_vertices[OF assms(1,3)]
  note c = valid_component[OF assms(2) v(1,2)]
  note m = valid_cells[OF assms(2) c(2,3)]
  show ?thesis
    using edge_accessors[OF e] c(1) m(2)
    by (simp add: remove_ties_def keeps_elected_only_def elected_edge_def)
qed

lemma remove_dups_eval:
  assumes "valid_graph G" "valid_state G P" "valid_edge_id G e"
    "\<not> source_of G e < destination_of G e \<longrightarrow> valid_edge_id G (elected_edge P (destination_of G e))"
  shows "remove_dups G P e = Some (P, keeps_reciprocity G P e)"
proof -
  note e = valid_edge_id_elem[OF assms(3)]
  note v = valid_edge_id_vertices[OF assms(1,3)]
  note c = valid_component[OF assms(2) v(3,4)]
  note m = valid_cells[OF assms(2) c(2,3)]
  show ?thesis
  proof (cases "source_of G e < destination_of G e")
    case True
    then show ?thesis
      using edge_accessors[OF e] by (simp add: remove_dups_def keeps_reciprocity_def)
  next
    case False
    with assms(4) have "valid_edge_id G (elected_edge P (destination_of G e))" by simp
    from edge_accessors[OF valid_edge_id_elem[OF this]] False edge_accessors[OF e] c(1) m(2)
    show ?thesis
      by (simp add: remove_dups_def keeps_reciprocity_def points_back_def elected_edge_def)
  qed
qed

text \<open>
  Claim C3. Symmetry breaking is two filters in sequence, and neither writes to the
  state. The first keeps \<open>e\<close> exactly when \<open>e = min_neighbors[roots[src(e)]]\<close>. The
  second keeps a surviving edge \<open>e = (s, d)\<close> exactly when \<open>s < d\<close>, or the elected
  edge of \<open>roots[d]\<close> does not point back at \<open>(d, s)\<close>. The second filter reads the
  elected edge of \<open>roots[d]\<close> when \<open>s < d\<close> fails; the hypothesis is that this
  edge id is then valid.
\<close>

theorem symmetry_breaking:
  assumes "valid_graph G" "valid_state G P" "valid_frontier G f"
    and "\<forall>e \<in> set f. keeps_elected_only G P e \<longrightarrow> \<not> source_of G e < destination_of G e
            \<longrightarrow> valid_edge_id G (elected_edge P (destination_of G e))"
  shows "do { (P3, f3) \<leftarrow> filter_execute (remove_ties G) P f;
              filter_execute (remove_dups G) P3 f3 }
         = Some (P, filter (keeps_reciprocity G P) (filter (keeps_elected_only G P) f))"
proof -
  note ids = valid_frontier_id[OF assms(3)]
  have 1: "filter_execute (remove_ties G) P f = Some (P, filter (keeps_elected_only G P) f)"
    by (rule filter_execute_pure) (simp add: remove_ties_eval[OF assms(1,2)] ids)
  have 2: "filter_execute (remove_dups G) P (filter (keeps_elected_only G P) f)
      = Some (P, filter (keeps_reciprocity G P) (filter (keeps_elected_only G P) f))"
  proof (rule filter_execute_pure)
    fix e assume "e \<in> set (filter (keeps_elected_only G P) f)"
    then have e: "e \<in> set f" "keeps_elected_only G P e" by simp_all
    show "remove_dups G P e = Some (P, keeps_reciprocity G P e)"
      using assms(4) e by (intro remove_dups_eval[OF assms(1,2) ids]) auto
  qed
  show ?thesis by (simp add: 1 2)
qed

theorem symmetry_breaking_witness:
  "valid_graph G4 \<and> valid_state G4 P4_elected \<and> valid_frontier G4 [0, 2, 4, 7]
   \<and> source_of G4 0 < destination_of G4 0
   \<and> valid_edge_id G4 (elected_edge P4_elected (destination_of G4 2))
   \<and> valid_edge_id G4 (elected_edge P4_elected (destination_of G4 4))
   \<and> valid_edge_id G4 (elected_edge P4_elected (destination_of G4 7))
   \<and> do { (P3, f3) \<leftarrow> filter_execute (remove_ties G4) P4_elected [0, 2, 4, 7];
           filter_execute (remove_dups G4) P3 f3 }
      = Some (P4_elected, [0, 4, 7])"
proof -
  have 1: "valid_graph G4" by code_simp
  have 2: "valid_state G4 P4_elected" by code_simp
  have 3: "valid_frontier G4 [0, 2, 4, 7]" by code_simp
  have 4: "\<forall>e \<in> set [0, 2, 4, 7]. keeps_elected_only G4 P4_elected e
          \<longrightarrow> \<not> source_of G4 e < destination_of G4 e
          \<longrightarrow> valid_edge_id G4 (elected_edge P4_elected (destination_of G4 e))"
    by code_simp
  have 5: "filter (keeps_reciprocity G4 P4_elected) (filter (keeps_elected_only G4 P4_elected) [0, 2, 4, 7])
      = [0, 4, 7]"
    by code_simp
  have 6: "source_of G4 0 < destination_of G4 0"
    "valid_edge_id G4 (elected_edge P4_elected (destination_of G4 2))"
    "valid_edge_id G4 (elected_edge P4_elected (destination_of G4 4))"
    "valid_edge_id G4 (elected_edge P4_elected (destination_of G4 7))"
    by code_simp+
  from symmetry_breaking[OF 1 2 3 4] 1 2 3 6 show ?thesis
    unfolding 5 by blast
qed

subsection \<open>Commit\<close>

lemma add_to_mst_eval:
  assumes "valid_graph G" "valid_state G P" "0 \<le> v" "v < int (number_of_vertices G)"
    and "min_weights P ! nat v \<noteq> weight_max \<longrightarrow>
           valid_edge_id G (min_neighbors P ! nat v)
         \<and> (\<not> source_of G (min_neighbors P ! nat v) < destination_of G (min_neighbors P ! nat v)
              \<longrightarrow> valid_edge_id G (elected_edge P (destination_of G (min_neighbors P ! nat v))))"
  shows "add_to_mst fadd G P v = Some (if commits G P v then committed fadd G P v else P)"
proof (cases "min_weights P ! nat v = weight_max")
  case True
  then show ?thesis
    using valid_cells(1)[OF assms(2,3,4)] by (simp add: add_to_mst_def commits_def)
next
  case False
  define mn where "mn = min_neighbors P ! nat v"
  from False assms(5) have mn: "valid_edge_id G mn"
    and rec: "\<not> source_of G mn < destination_of G mn
              \<longrightarrow> valid_edge_id G (elected_edge P (destination_of G mn))"
    by (simp_all add: mn_def)
  note e = edge_accessors[OF valid_edge_id_elem[OF mn]]
  note ev = valid_edge_id_vertices[OF assms(1) mn]
  note c = valid_component[OF assms(2) ev(3,4)]
  note m = valid_cells[OF assms(2) c(2,3)]
  note nr = valid_cells(3)[OF assms(2) ev(3,4)]
  note cells = valid_cells[OF assms(2,3,4)]
  have scal: "elem (mst_edges P) 0 = Some (mst_edges P ! 0)"
    "elem (super_vertices P) 0 = Some (super_vertices P ! 0)"
    using assms(2) by (simp_all add: valid_state_def elem_def)
  have upd: "(mst_edges P)[0 := x] = [x]" "(super_vertices P)[0 := y] = [y]" for x y
    using assms(2) by (cases "mst_edges P"; cases "super_vertices P"; simp add: valid_state_def)+
  have st: "store (new_roots P) v x = Some ((new_roots P)[nat v := x])" for x
    using assms(2,3,4) by (simp add: store_def valid_state_def)
  show ?thesis
  proof (cases "source_of G mn < destination_of G mn")
    case True
    then show ?thesis
      using False e cells scal upd nr st
      by (simp add: add_to_mst_def commits_def committed_def keeps_reciprocity_def
          atomic_add_def mn_def[symmetric])
  next
    case ge: False
    with rec have "valid_edge_id G (elected_edge P (destination_of G mn))" by simp
    note e2 = edge_accessors[OF valid_edge_id_elem[OF this]]
    show ?thesis
      using False ge e e2 cells scal upd nr st c(1) m(2)
      by (simp add: add_to_mst_def commits_def committed_def keeps_reciprocity_def
          points_back_def elected_edge_def atomic_add_def mn_def[symmetric])
  qed
qed

text \<open>
  Claim C4. For a vertex \<open>v\<close>, the commit lambda acts exactly when \<open>min_weights[v]\<close>
  differs from the sentinel and the reciprocity condition of symmetry breaking holds
  for the edge \<open>min_neighbors[v]\<close>. When it acts it adds \<open>min_weights[v]\<close> to
  \<open>mst_weight\<close>, adds one to \<open>mst_edges\<close>, subtracts one from \<open>super_vertices\<close> and
  sets \<open>new_roots[v]\<close> to \<open>new_roots[dst(min_neighbors[v])]\<close>, and writes nothing
  else; when it does not act the state is unchanged. The hypothesis is that the edge
  ids the lambda reads are valid.

  The addition into \<open>mst_weight\<close> is the float addition \<open>fadd\<close> of the device, which
  rounds: the new value is \<open>fadd (mst_weight P) (min_weights P ! v)\<close>, not the exact
  sum. With \<open>binary32_add\<close>, committing the weight \<open>2\<close> onto the sum \<open>2 ^ 25\<close> of the
  state \<open>P4_large\<close> leaves \<open>2 ^ 25\<close>.
\<close>

theorem commit_vertex:
  assumes "valid_graph G" "valid_state G P" "0 \<le> v" "v < int (number_of_vertices G)"
    and "min_weights P ! nat v \<noteq> weight_max \<longrightarrow>
           valid_edge_id G (min_neighbors P ! nat v)
         \<and> (\<not> source_of G (min_neighbors P ! nat v) < destination_of G (min_neighbors P ! nat v)
              \<longrightarrow> valid_edge_id G (elected_edge P (destination_of G (min_neighbors P ! nat v))))"
  shows "\<exists>P'. add_to_mst fadd G P v = Some P'
     \<and> (commits G P v \<longrightarrow>
          mst_weight P' = fadd (mst_weight P) (min_weights P ! nat v)
        \<and> mst_edges P' = [mst_edges P ! 0 + 1]
        \<and> super_vertices P' = [super_vertices P ! 0 - 1]
        \<and> new_roots P' = (new_roots P)[nat v := new_roots P ! nat (destination_of G (min_neighbors P ! nat v))]
        \<and> roots P' = roots P \<and> min_weights P' = min_weights P
        \<and> min_neighbors P' = min_neighbors P)
     \<and> (\<not> commits G P v \<longrightarrow> P' = P)"
  using add_to_mst_eval[OF assms] by (simp add: committed_def)

theorem commit_vertex_witness:
  "valid_graph G4 \<and> valid_state G4 P4_large \<and> (0::int) \<le> 2 \<and> 2 < int (number_of_vertices G4)
   \<and> min_weights P4_large ! nat 2 \<noteq> weight_max
   \<and> valid_edge_id G4 (min_neighbors P4_large ! nat 2)
   \<and> \<not> source_of G4 (min_neighbors P4_large ! nat 2) < destination_of G4 (min_neighbors P4_large ! nat 2)
   \<and> valid_edge_id G4 (elected_edge P4_large (destination_of G4 (min_neighbors P4_large ! nat 2)))
   \<and> commits G4 P4_large 2
   \<and> mst_weight P4_large = 33554432 \<and> min_weights P4_large ! nat 2 = 2
   \<and> (\<exists>P'. add_to_mst binary32_add G4 P4_large 2 = Some P'
        \<and> mst_weight P' = 33554432
        \<and> mst_edges P' = [mst_edges P4_large ! 0 + 1]
        \<and> super_vertices P' = [super_vertices P4_large ! 0 - 1]
        \<and> new_roots P' = [0, 1, 1, 3])"
proof -
  have 1: "valid_graph G4" by code_simp
  have 2: "valid_state G4 P4_large" by code_simp
  have 3: "(0::int) \<le> 2" by simp
  have 4: "2 < int (number_of_vertices G4)" by code_simp
  have 5: "min_weights P4_large ! nat 2 \<noteq> weight_max" by code_simp
  have 6: "valid_edge_id G4 (min_neighbors P4_large ! nat 2)" by code_simp
  have 7: "\<not> source_of G4 (min_neighbors P4_large ! nat 2) < destination_of G4 (min_neighbors P4_large ! nat 2)"
    by code_simp
  have 8: "valid_edge_id G4 (elected_edge P4_large (destination_of G4 (min_neighbors P4_large ! nat 2)))"
    by code_simp
  have 9: "commits G4 P4_large 2" by code_simp
  have 10: "mst_weight P4_large = 33554432" "min_weights P4_large ! nat 2 = 2" by code_simp+
  have 11: "binary32_add (mst_weight P4_large) (min_weights P4_large ! nat 2) = 33554432"
    by code_simp
  have 12: "(new_roots P4_large)[nat 2 := new_roots P4_large ! nat (destination_of G4 (min_neighbors P4_large ! nat 2))]
      = [0, 1, 1, 3]"
    by code_simp
  from commit_vertex[OF 1 2 3 4, of binary32_add] 6 8 9 obtain P' where
    "add_to_mst binary32_add G4 P4_large 2 = Some P'"
    "mst_weight P' = binary32_add (mst_weight P4_large) (min_weights P4_large ! nat 2)"
    "mst_edges P' = [mst_edges P4_large ! 0 + 1]"
    "super_vertices P' = [super_vertices P4_large ! 0 - 1]"
    "new_roots P' = (new_roots P4_large)[nat 2 := new_roots P4_large ! nat (destination_of G4 (min_neighbors P4_large ! nat 2))]"
    by blast
  with 1 2 3 4 5 6 7 8 9 10 11 12 show ?thesis by simp
qed

subsection \<open>Union-find contraction\<close>

text \<open>A pointer chase that returns, returns a fixed point of the array; and at a
  fixed point it returns at once.\<close>

lemma jump_loop_fixed_point:
  assumes "jump_loop rts u = Some x"
  shows "elem rts x = Some x"
proof (rule jump_loop.raw_induct[where P = "\<lambda>rts u x. elem rts x = Some x", OF _ assms])
  fix jl and rts :: "vertex_t list" and u x
  assume IH: "\<And>rts u y. jl rts u = Some y \<Longrightarrow> elem rts y = Some y"
    and body: "(case elem rts u of None \<Rightarrow> None
                | Some r \<Rightarrow> if r \<noteq> u then jl rts r else Some u) = Some x"
  show "elem rts x = Some x"
  proof (cases "elem rts u")
    case None
    with body show ?thesis by simp
  next
    case (Some r)
    with body IH show ?thesis by (cases "r = u") auto
  qed
qed

lemma jump_loop_at_fixed_point:
  assumes "elem rts x = Some x"
  shows "jump_loop rts x = Some x"
  by (subst jump_loop.simps) (simp add: assms)

text \<open>The chase and the pointers. Following pointers from a fixed point stays
  there; when following the pointers from \<open>u\<close> reaches a fixed point, the chase from
  \<open>u\<close> returns it; and what the chase returns is reached by following pointers.\<close>

lemma follow_at_fixed_point:
  assumes "elem rts x = Some x"
  shows "follow rts k x = Some x"
  by (induction k) (simp_all add: assms)

lemma follow_jump_loop:
  assumes "follow rts k u = Some x" "elem rts x = Some x"
  shows "jump_loop rts u = Some x"
  using assms(1)
proof (induction k arbitrary: u)
  case 0
  then show ?case using jump_loop_at_fixed_point[OF assms(2)] by simp
next
  case (Suc k)
  then obtain r where r: "elem rts u = Some r" and f: "follow rts k r = Some x"
    by (auto split: option.splits)
  show ?case
  proof (cases "r = u")
    case True
    with r have "follow rts k u = Some u" by (simp add: follow_at_fixed_point)
    with f True have "x = u" by simp
    with r True show ?thesis by (simp add: jump_loop_at_fixed_point)
  next
    case False
    from Suc.IH[OF f] have "jump_loop rts r = Some x" .
    with r False show ?thesis by (subst jump_loop.simps) simp
  qed
qed

lemma jump_loop_follow:
  assumes "jump_loop rts u = Some x"
  shows "\<exists>k. follow rts k u = Some x"
proof (rule jump_loop.raw_induct[where P = "\<lambda>rts u x. \<exists>k. follow rts k u = Some x", OF _ assms])
  fix jl and rts :: "vertex_t list" and u x
  assume IH: "\<And>rts u y. jl rts u = Some y \<Longrightarrow> \<exists>k. follow rts k u = Some y"
    and body: "(case elem rts u of None \<Rightarrow> None
                | Some r \<Rightarrow> if r \<noteq> u then jl rts r else Some u) = Some x"
  show "\<exists>k. follow rts k u = Some x"
  proof (cases "elem rts u")
    case None
    with body show ?thesis by simp
  next
    case (Some r)
    show ?thesis
    proof (cases "r = u")
      case True
      with body Some have "x = u" by simp
      then have "follow rts 0 u = Some x" by simp
      then show ?thesis ..
    next
      case False
      with body Some have "jl rts r = Some x" by simp
      from IH[OF this] obtain k where "follow rts k r = Some x" ..
      with Some have "follow rts (Suc k) u = Some x" by simp
      then show ?thesis ..
    qed
  qed
qed

lemma jump_pointers_prefix:
  assumes "length (new_roots P) = length (roots P)"
    and "\<forall>v < length (roots P). jump_loop (roots P) (roots P ! v) \<noteq> None"
    and "k \<le> length (roots P)"
  shows "parallel_for_execute jump_pointers_parallel P (map int [0..<k])
     = Some (P\<lparr>new_roots := take k (chased (roots P)) @ drop k (new_roots P)\<rparr>)"
  using assms(3)
proof (induction k)
  case 0
  show ?case by simp
next
  case (Suc k)
  let ?P1 = "P\<lparr>new_roots := take k (chased (roots P)) @ drop k (new_roots P)\<rparr>"
  from Suc have IH: "parallel_for_execute jump_pointers_parallel P (map int [0..<k]) = Some ?P1"
    and k: "k < length (roots P)" by simp_all
  from assms(2) k obtain u where u: "jump_loop (roots P) (roots P ! k) = Some u" by auto
  have ck: "chased (roots P) ! k = u"
    using k u by (simp add: chased_def)
  have len: "length (chased (roots P)) = length (roots P)"
    by (simp add: chased_def)
  have upd: "(take k (chased (roots P)) @ drop k (new_roots P))[k := u]
      = take (Suc k) (chased (roots P)) @ drop (Suc k) (new_roots P)"
    using k len assms(1) ck
    by (simp add: list_update_append take_Suc_conv_app_nth upd_conv_take_nth_drop
        drop_Suc flip: drop_Suc_Cons)
  have step: "jump_pointers_parallel ?P1 (int k)
      = Some (P\<lparr>new_roots := take (Suc k) (chased (roots P)) @ drop (Suc k) (new_roots P)\<rparr>)"
    using k u len assms(1) upd
    by (simp add: jump_pointers_parallel_def elem_def store_def)
  show ?case
    by (simp add: parallel_for_execute_append IH step del: upt_Suc add: upt_Suc_append)
qed

lemma jump_pointers_all:
  assumes "length (new_roots P) = length (roots P)"
    and "\<forall>v < length (roots P). jump_loop (roots P) (roots P ! v) \<noteq> None"
  shows "parallel_for_execute jump_pointers_parallel P (map int [0..<length (roots P)])
     = Some (P\<lparr>new_roots := chased (roots P)\<rparr>)"
  using jump_pointers_prefix[OF assms, of "length (roots P)"] assms(1)
  by (simp add: chased_def)

lemma chased_flat:
  assumes "\<forall>v < length rts. jump_loop rts (rts ! v) \<noteq> None" "v < length rts"
  shows "elem (chased rts) (chased rts ! v) = Some (chased rts ! v)"
    "jump_loop rts (rts ! v) = Some (chased rts ! v)"
proof -
  from assms obtain u where u: "jump_loop rts (rts ! v) = Some u" by auto
  then have cv: "chased rts ! v = u" using assms(2) by (simp add: chased_def)
  from jump_loop_fixed_point[OF u] have fx: "elem rts u = Some u" .
  then have ur: "0 \<le> u" "nat u < length rts" "rts ! nat u = u"
    by (auto simp: elem_def split: if_splits)
  have "jump_loop rts (rts ! nat u) = Some u"
    using jump_loop_at_fixed_point[OF fx] ur by simp
  then have "chased rts ! nat u = u"
    using ur by (simp add: chased_def)
  then show "elem (chased rts) (chased rts ! v) = Some (chased rts ! v)"
    using ur cv by (simp add: elem_def chased_def)
  show "jump_loop rts (rts ! v) = Some (chased rts ! v)" using u cv by simp
qed

lemma chased_idem:
  assumes "\<forall>v < length rts. jump_loop rts (rts ! v) \<noteq> None"
  shows "chased (chased rts) = chased rts"
proof (rule nth_equalityI)
  show "length (chased (chased rts)) = length (chased rts)" by (simp add: chased_def)
next
  fix i assume "i < length (chased (chased rts))"
  then have i: "i < length rts" by (simp add: chased_def)
  have "jump_loop (chased rts) (chased rts ! i) = Some (chased rts ! i)"
    using chased_flat(1)[OF assms i] by (rule jump_loop_at_fixed_point)
  then show "chased (chased rts) ! i = chased rts ! i"
    using i by (simp add: chased_def)
qed

text \<open>
  Claim C5. Contraction (lines 276 to 282: copy \<open>new_roots\<close> into \<open>roots\<close>, chase
  the pointers of every vertex into \<open>new_roots\<close>, copy again) is idempotent. The
  array it chases is \<open>new_roots\<close>, which the first copy moves into \<open>roots\<close>. The
  hypothesis is that the chase terminates: following the pointers of that array from
  the cell of every vertex reaches a fixed point. Then contraction returns a state
  \<open>P1\<close> that differs from \<open>P\<close> only in \<open>roots\<close> and \<open>new_roots\<close>, which are equal; for
  every vertex \<open>v\<close> the value \<open>roots P1 ! v\<close> is reached from the cell of \<open>v\<close> by
  following the pointers of the chased array and is a fixed point of the chased
  array, and it is what the loop of the source returns; a second contraction returns
  the same state \<open>P1\<close>; and every chain of \<open>roots P1\<close> has length one.
\<close>

theorem contraction_idempotent:
  assumes "length (roots P) = get_number_of_vertices G"
    and "length (new_roots P) = get_number_of_vertices G"
    and "\<forall>v < get_number_of_vertices G.
           \<exists>k x. follow (new_roots P) k (new_roots P ! v) = Some x \<and> elem (new_roots P) x = Some x"
  shows "\<exists>P1. contraction G P = Some P1
     \<and> contraction G P1 = Some P1
     \<and> P1 = P\<lparr>roots := roots P1, new_roots := roots P1\<rparr>
     \<and> length (roots P1) = get_number_of_vertices G
     \<and> (\<forall>v < get_number_of_vertices G.
           (\<exists>k. follow (new_roots P) k (new_roots P ! v) = Some (roots P1 ! v))
         \<and> elem (new_roots P) (roots P1 ! v) = Some (roots P1 ! v)
         \<and> jump_loop (new_roots P) (new_roots P ! v) = Some (roots P1 ! v)
         \<and> roots P1 ! nat (roots P1 ! v) = roots P1 ! v)"
proof -
  let ?n = "get_number_of_vertices G"
  let ?r = "new_roots P"
  let ?P1 = "P\<lparr>roots := chased ?r, new_roots := chased ?r\<rparr>"
  have term1: "\<forall>v < length ?r. jump_loop ?r (?r ! v) \<noteq> None"
    using assms(2,3) follow_jump_loop[of ?r] by fastforce
  have len: "length (chased ?r) = ?n" by (simp add: chased_def assms(2))
  have term2: "\<forall>v < length (chased ?r). jump_loop (chased ?r) (chased ?r ! v) \<noteq> None"
    using chased_flat(1)[of ?r] assms(2) term1 len jump_loop_at_fixed_point by fastforce
  have run: "contraction G Q = Some (Q\<lparr>roots := chased (new_roots Q), new_roots := chased (new_roots Q)\<rparr>)"
    if "length (roots Q) = ?n" "length (new_roots Q) = ?n"
      "\<forall>v < length (new_roots Q). jump_loop (new_roots Q) (new_roots Q ! v) \<noteq> None" for Q
  proof -
    have "parallel_for_execute jump_pointers_parallel (Q\<lparr>roots := new_roots Q\<rparr>) (vertices G)
        = Some (Q\<lparr>roots := new_roots Q, new_roots := chased (new_roots Q)\<rparr>)"
      using jump_pointers_all[of "Q\<lparr>roots := new_roots Q\<rparr>"] that
      by (simp add: vertices_def)
    then show ?thesis
      using that by (simp add: contraction_def copy_n_def chased_def)
  qed
  have 1: "contraction G P = Some ?P1"
    using run[of P] assms(1,2) term1 by simp
  have 2: "contraction G ?P1 = Some ?P1"
    using run[of ?P1] len term2 chased_idem[of ?r] term1 by simp
  have 3: "?P1 = P\<lparr>roots := roots ?P1, new_roots := roots ?P1\<rparr>" by simp
  have 4: "length (roots ?P1) = ?n" using len by simp
  have 5: "(\<exists>k. follow ?r k (?r ! v) = Some (roots ?P1 ! v))
         \<and> elem ?r (roots ?P1 ! v) = Some (roots ?P1 ! v)
         \<and> jump_loop ?r (?r ! v) = Some (roots ?P1 ! v)
         \<and> roots ?P1 ! nat (roots ?P1 ! v) = roots ?P1 ! v" if v: "v < ?n" for v
  proof -
    from v assms(2) have vl: "v < length ?r" by simp
    from chased_flat(2)[OF term1 vl] have j: "jump_loop ?r (?r ! v) = Some (chased ?r ! v)" .
    from jump_loop_follow[OF j] have a: "\<exists>k. follow ?r k (?r ! v) = Some (chased ?r ! v)" .
    from jump_loop_fixed_point[OF j] have b: "elem ?r (chased ?r ! v) = Some (chased ?r ! v)" .
    from chased_flat(1)[OF term1 vl] have "chased ?r ! nat (chased ?r ! v) = chased ?r ! v"
      by (auto simp: elem_def split: if_splits)
    with a b j show ?thesis by simp
  qed
  show ?thesis
  proof (intro exI[of _ ?P1] conjI allI impI)
    show "contraction G P = Some ?P1" by (rule 1)
    show "contraction G ?P1 = Some ?P1" by (rule 2)
    show "?P1 = P\<lparr>roots := roots ?P1, new_roots := roots ?P1\<rparr>" by (rule 3)
    show "length (roots ?P1) = ?n" by (rule 4)
  next
    fix v assume "v < ?n"
    from 5[OF this]
    show "\<exists>k. follow ?r k (?r ! v) = Some (roots ?P1 ! v)"
      "elem ?r (roots ?P1 ! v) = Some (roots ?P1 ! v)"
      "jump_loop ?r (?r ! v) = Some (roots ?P1 ! v)"
      "roots ?P1 ! nat (roots ?P1 ! v) = roots ?P1 ! v"
      by blast+
  qed
qed

theorem contraction_idempotent_witness:
  "length (roots P4_chains) = get_number_of_vertices G4
   \<and> length (new_roots P4_chains) = get_number_of_vertices G4
   \<and> new_roots P4_chains = [1, 2, 3, 3]
   \<and> follow (new_roots P4_chains) 2 (new_roots P4_chains ! 0) = Some 3
   \<and> follow (new_roots P4_chains) 1 (new_roots P4_chains ! 1) = Some 3
   \<and> follow (new_roots P4_chains) 0 (new_roots P4_chains ! 2) = Some 3
   \<and> follow (new_roots P4_chains) 0 (new_roots P4_chains ! 3) = Some 3
   \<and> elem (new_roots P4_chains) 3 = Some 3
   \<and> (\<exists>P1. contraction G4 P4_chains = Some P1 \<and> contraction G4 P1 = Some P1
         \<and> P1 = P4_chains\<lparr>roots := [3, 3, 3, 3], new_roots := [3, 3, 3, 3]\<rparr>
         \<and> elem (new_roots P4_chains) (roots P1 ! 0) = Some (roots P1 ! 0)
         \<and> roots P1 ! nat (roots P1 ! 0) = roots P1 ! 0)"
proof -
  have n: "get_number_of_vertices G4 = 4"
    by (simp add: get_number_of_vertices_def G4_def)
  have 1: "length (roots P4_chains) = get_number_of_vertices G4" by code_simp
  have 2: "length (new_roots P4_chains) = get_number_of_vertices G4" by code_simp
  have nr: "new_roots P4_chains = [1, 2, 3, 3]" by code_simp
  have each: "follow (new_roots P4_chains) 2 (new_roots P4_chains ! 0) = Some 3"
    "follow (new_roots P4_chains) 1 (new_roots P4_chains ! 1) = Some 3"
    "follow (new_roots P4_chains) 0 (new_roots P4_chains ! 2) = Some 3"
    "follow (new_roots P4_chains) 0 (new_roots P4_chains ! 3) = Some 3"
    by code_simp+
  have fx: "elem (new_roots P4_chains) 3 = Some 3" by code_simp
  have "v = 0 \<or> v = 1 \<or> v = 2 \<or> v = 3" if "v < 4" for v :: nat
    using that by auto
  with each fx have 3: "\<forall>v < get_number_of_vertices G4.
       \<exists>k x. follow (new_roots P4_chains) k (new_roots P4_chains ! v) = Some x
         \<and> elem (new_roots P4_chains) x = Some x"
    unfolding n by blast
  have run: "contraction G4 P4_chains
      = Some (P4_chains\<lparr>roots := [3, 3, 3, 3], new_roots := [3, 3, 3, 3]\<rparr>)"
    by code_simp
  from contraction_idempotent[OF 1 2 3] obtain P1 where
    P1: "contraction G4 P4_chains = Some P1" "contraction G4 P1 = Some P1"
      "0 < get_number_of_vertices G4 \<longrightarrow>
         elem (new_roots P4_chains) (roots P1 ! 0) = Some (roots P1 ! 0)
       \<and> roots P1 ! nat (roots P1 ! 0) = roots P1 ! 0"
    by blast
  from P1(1) run have "P1 = P4_chains\<lparr>roots := [3, 3, 3, 3], new_roots := [3, 3, 3, 3]\<rparr>"
    by simp
  with P1 n 1 2 nr each fx show ?thesis by simp
qed

subsection \<open>The tie-break of neighbour selection\<close>

text \<open>The selection phase leaves in every cell of \<open>min_neighbors\<close> the highest of
  its old value and the candidates of that component in the frontier.\<close>

lemma highest_Max: "highest x es = Max (insert x (set es))"
proof (induction es arbitrary: x)
  case Nil
  show ?case by (simp add: highest_def)
next
  case (Cons e es)
  have "highest x (e # es) = highest (max e x) es" by (simp add: highest_def)
  also have "\<dots> = Max (insert (max e x) (set es))" by (rule Cons.IH)
  also have "\<dots> = Max (insert x (set (e # es)))"
  proof (cases "set es = {}")
    case True
    then show ?thesis by (simp add: max.commute)
  next
    case False
    then show ?thesis
      by (simp add: max.assoc max.commute max.left_commute)
  qed
  finally show ?case .
qed

lemma selected_Nil:
  "valid_state G P \<Longrightarrow> selected G P [] = min_neighbors P"
  by (auto simp: selected_def candidates_def highest_def valid_state_def intro: nth_equalityI)

lemma selection_phase_result:
  assumes "valid_graph G" "valid_state G P" "valid_frontier G f"
  shows "\<exists>out. filter_execute (get_min_neighbors G) P f
           = Some (P\<lparr>min_neighbors := selected G P f\<rparr>, out)"
  using assms(2,3)
proof (induction f arbitrary: P)
  case Nil
  then show ?case by (simp add: selected_Nil)
next
  case (Cons e es)
  have ev: "valid_edge_id G e" and esv: "valid_frontier G es"
    using Cons.prems(2) by (simp_all add: valid_frontier_def valid_edge_id_def)
  note el = valid_edge_id_elem[OF ev]
  note v = valid_edge_id_vertices[OF assms(1) ev]
  note c = valid_component[OF Cons.prems(1) v(1,2)]
  note m = valid_cells[OF Cons.prems(1) c(2,3)]
  let ?rs = "component P (source_of G e)"
  let ?old = "min_neighbors P ! nat ?rs"
  define P1 where "P1 = (if weight_of G e = min_weights P ! nat ?rs
     then P\<lparr>min_neighbors := (min_neighbors P)[nat ?rs := max ?old e]\<rparr> else P)"
  have step: "get_min_neighbors G P e = Some (P1, weight_of G e = min_weights P ! nat ?rs \<and> ?old < e)"
    using get_min_neighbors_eval[OF el c(1) m(1,2)] by (simp add: P1_def)
  have P1v: "valid_state G P1" using Cons.prems(1) by (auto simp: P1_def valid_state_def)
  from Cons.IH[OF P1v esv] obtain out where
    rest: "filter_execute (get_min_neighbors G) P1 es = Some (P1\<lparr>min_neighbors := selected G P1 es\<rparr>, out)"
    by blast
  have same: "candidates G P1 es k = candidates G P es k" for k
    by (simp add: candidates_def P1_def component_def)
  have len: "length (min_neighbors P) = number_of_vertices G"
    using Cons.prems(1) by (simp add: valid_state_def)
  have sel: "selected G P1 es = selected G P (e # es)"
    unfolding selected_def
  proof (rule map_cong[OF refl])
    fix k assume "k \<in> set [0..<number_of_vertices G]"
    then have k: "k < length (min_neighbors P)" using len by simp
    show "highest (min_neighbors P1 ! k) (candidates G P1 es (int k))
        = highest (min_neighbors P ! k) (candidates G P (e # es) (int k))"
    proof (cases "?rs = int k \<and> weight_of G e = min_weights P ! k")
      case True
      then have "nat ?rs = k" by simp
      with True k have "min_neighbors P1 ! k = max e (min_neighbors P ! k)"
        by (simp add: P1_def max.commute)
      moreover have "candidates G P (e # es) (int k) = e # candidates G P es (int k)"
        using True by (simp add: candidates_def)
      ultimately show ?thesis
        unfolding same by (simp add: highest_def)
    next
      case False
      have "min_neighbors P1 ! k = min_neighbors P ! k"
      proof (cases "?rs = int k")
        case True
        with False show ?thesis by (simp add: P1_def)
      next
        case ne: False
        then have "nat ?rs \<noteq> k" using c(2) by auto
        then show ?thesis by (simp add: P1_def)
      qed
      moreover have "candidates G P (e # es) (int k) = candidates G P es (int k)"
        using False by (auto simp: candidates_def)
      ultimately show ?thesis
        unfolding same by simp
    qed
  qed
  have P1upd: "P1\<lparr>min_neighbors := x\<rparr> = P\<lparr>min_neighbors := x\<rparr>" for x
    by (simp add: P1_def)
  show ?case
    using step rest by (simp add: sel P1upd)
qed

lemma candidates_set:
  "set (candidates G P f c)
     = {e \<in> set f. component P (source_of G e) = c \<and> weight_of G e = min_weights P ! nat c}"
  by (auto simp: candidates_def)

text \<open>
  Claim C6, as amended. For every two execution orders of the neighbour-selection
  phase (a frontier \<open>f\<close> and a permutation \<open>f'\<close> of it) from the same state, the
  phase ends in the same state: the final \<open>min_neighbors\<close> value of every component
  is the highest of its value before the phase and the ids of that component's
  candidates in the frontier (the edges of the frontier whose weight equals the
  component's \<open>min_weights\<close> value). Nothing is claimed about which of two
  equal-weight edges of the graph is committed: that is decided by which of them the
  relaxation phase lets into this frontier.
\<close>

theorem selection_order_independent:
  assumes "valid_graph G" "valid_state G P" "valid_frontier G f" "mset f' = mset f"
  shows "\<exists>P' out out'.
      filter_execute (get_min_neighbors G) P f = Some (P', out)
    \<and> filter_execute (get_min_neighbors G) P f' = Some (P', out')
    \<and> (\<forall>c < number_of_vertices G.
         min_neighbors P' ! c
           = Max (insert (min_neighbors P ! c)
               {e \<in> set f. component P (source_of G e) = int c \<and> weight_of G e = min_weights P ! c}))"
proof -
  have sets: "set f' = set f" using assms(4) by (rule mset_eq_setD)
  then have vf': "valid_frontier G f'" using assms(3) by (simp add: valid_frontier_def)
  from selection_phase_result[OF assms(1,2,3)] obtain out where
    1: "filter_execute (get_min_neighbors G) P f = Some (P\<lparr>min_neighbors := selected G P f\<rparr>, out)"
    by blast
  from selection_phase_result[OF assms(1,2) vf'] obtain out' where
    2: "filter_execute (get_min_neighbors G) P f' = Some (P\<lparr>min_neighbors := selected G P f'\<rparr>, out')"
    by blast
  have val: "selected G P g ! c
      = Max (insert (min_neighbors P ! c)
          {e \<in> set g. component P (source_of G e) = int c \<and> weight_of G e = min_weights P ! c})"
    if "c < number_of_vertices G" for c g
    using that by (simp add: selected_def highest_Max candidates_set)
  have "selected G P f' = selected G P f"
    by (simp add: selected_def highest_Max candidates_set sets)
  with 1 2 val[of _ f] show ?thesis by auto
qed

theorem selection_order_independent_witness:
  "valid_graph G4 \<and> valid_state G4 P4_relaxed \<and> valid_frontier G4 [0, 2, 4, 6, 7]
   \<and> mset [7, 4, 0, 6, 2] = mset [0, 2, 4, 6, 7 :: int]
   \<and> (\<exists>P' out out'.
        filter_execute (get_min_neighbors G4) P4_relaxed [0, 2, 4, 6, 7] = Some (P', out)
      \<and> filter_execute (get_min_neighbors G4) P4_relaxed [7, 4, 0, 6, 2] = Some (P', out'))"
proof -
  have 1: "valid_graph G4" by code_simp
  have 2: "valid_state G4 P4_relaxed" by code_simp
  have 3: "valid_frontier G4 [0, 2, 4, 6, 7]" by code_simp
  have 4: "mset [7, 4, 0, 6, 2] = mset [0, 2, 4, 6, 7 :: int]" by simp
  from selection_order_independent[OF 1 2 3 4] 1 2 3 4 show ?thesis by blast
qed

text \<open>
  Claim C6 as stated fails. In \<open>G3_tie\<close> the edges 0 and 1 leave vertex 0 with the
  same, minimum, weight. With the frontier in the order \<open>[0, 1, 2, 3]\<close> the round
  elects and commits edge 0, the lower id: relaxation keeps only the first of two
  equal-weight edges (\<^verbatim>\<open>weight < old_weight\<close> is strict), so edge 1 never reaches the
  selection phase. With the order \<open>[1, 0, 2, 3]\<close> the round elects edge 1.
\<close>

theorem tie_break_counterexample:
  "loop binary32_add G3_tie [0, 1, 2, 3] (init G3_tie (constructed 0))
     = Some (\<lparr>mst_weight = 10, roots = [1, 1, 1], new_roots = [1, 1, 1],
              min_weights = [5, 5, 5], mst_edges = [2], super_vertices = [1],
              min_neighbors = [0, 2, 3]\<rparr>, [0, 3])
   \<and> loop binary32_add G3_tie [1, 0, 2, 3] (init G3_tie (constructed 0))
     = Some (\<lparr>mst_weight = 10, roots = [2, 2, 2], new_roots = [2, 2, 2],
              min_weights = [5, 5, 5], mst_edges = [2], super_vertices = [1],
              min_neighbors = [1, 2, 3]\<rparr>, [1, 2])
   \<and> source_of G3_tie 0 = 0 \<and> source_of G3_tie 1 = 0
   \<and> weight_of G3_tie 0 = 5 \<and> weight_of G3_tie 1 = 5"
  by code_simp

subsection \<open>The round controller\<close>

text \<open>The enactor returns only a converged state; and from a state that is not
  converged and that a round maps to itself, it never returns.\<close>

lemma enact_returns_converged:
  assumes "enact fadd G f0 P = Some P'"
  shows "is_converged P' = Some True"
proof (rule enact.raw_induct[where Pa = "\<lambda>_ P'. is_converged P' = Some True", OF _ assms])
  fix el and fadd :: "weight_t \<Rightarrow> weight_t \<Rightarrow> weight_t" and G :: graph_t
    and f0 :: "edge_t list" and P P' :: problem_t
  assume IH: "\<And>fadd G f0 P P'. el fadd G f0 P = Some P' \<Longrightarrow> is_converged P' = Some True"
    and body: "do { c \<leftarrow> is_converged P;
                    if c then Some P
                    else do { (P1, f1) \<leftarrow> loop fadd G f0 P; el fadd G f0 P1 } } = Some P'"
  show "is_converged P' = Some True"
    using body IH by (auto split: bind_splits if_splits)
qed

lemma enact_stuck:
  assumes "is_converged P = Some False" "loop fadd G f0 P = Some (P, out)"
  shows "enact fadd G f0 P = None"
proof (rule ccontr)
  assume "enact fadd G f0 P \<noteq> None"
  then obtain P' where r: "enact fadd G f0 P = Some P'" by auto
  have "(((fadd', G'), f'), Q) \<noteq> (((fadd, G), f0), P)"
    if "enact fadd' G' f' Q = Some Q'" for fadd' G' f' Q Q'
  proof (rule enact.raw_induct[where Pa = "\<lambda>x _. x \<noteq> (((fadd, G), f0), P)", OF _ that])
    fix el and fadd' :: "weight_t \<Rightarrow> weight_t \<Rightarrow> weight_t" and G' :: graph_t
      and f' :: "edge_t list" and Q Q' :: problem_t
    assume IH: "\<And>fadd' G' f' Q Q'. el fadd' G' f' Q = Some Q' \<Longrightarrow>
        (((fadd', G'), f'), Q) \<noteq> (((fadd, G), f0), P)"
      and body: "do { c \<leftarrow> is_converged Q;
                    if c then Some Q
                    else do { (P1, f1) \<leftarrow> loop fadd' G' f' Q; el fadd' G' f' P1 } } = Some Q'"
    show "(((fadd', G'), f'), Q) \<noteq> (((fadd, G), f0), P)"
    proof
      assume eq: "(((fadd', G'), f'), Q) = (((fadd, G), f0), P)"
      with body assms have "el fadd G f0 P = Some Q'" by simp
      from IH[OF this] show False by simp
    qed
  qed
  from this[OF r] show False by simp
qed

lemma G6_rounds:
  "loop binary32_add G6 (prepare_frontier G6) (init G6 (constructed 0)) = Some (P6_round1, [0, 5, 6, 11])"
  "loop binary32_add G6 (prepare_frontier G6) P6_round1 = Some (P6_stuck, [])"
  "loop binary32_add G6 (prepare_frontier G6) P6_stuck = Some (P6_stuck, [])"
  "is_converged (init G6 (constructed 0)) = Some False"
  "is_converged P6_round1 = Some False"
  "is_converged P6_stuck = Some False"
  by code_simp+

text \<open>
  Claim C9, as amended. The source has no bound on the number of rounds and no
  error path: the enactor stops only when \<^verbatim>\<open>is_converged\<close> holds, that is when
  \<open>super_vertices[0] = 1\<close>. So a state it returns is converged; and from a state
  that is not converged and that one round leaves unchanged, which is the state a
  disconnected graph reaches once its components are merged, it runs forever.
\<close>

theorem enact_no_error_path:
  "(enact fadd G f0 P = Some P' \<longrightarrow> is_converged P' = Some True)
   \<and> (is_converged P = Some False \<and> loop fadd G f0 P = Some (P, out) \<longrightarrow> enact fadd G f0 P = None)"
  using enact_returns_converged enact_stuck by blast

theorem enact_no_error_path_witness:
  "is_converged P6_stuck = Some False
   \<and> loop binary32_add G6 (prepare_frontier G6) P6_stuck = Some (P6_stuck, [])
   \<and> enact binary32_add G6 (prepare_frontier G6) P6_stuck = None
   \<and> enact binary32_add G4 (prepare_frontier G4) (init G4 (constructed 0))
        = Some P4_final
   \<and> is_converged P4_final = Some True"
proof -
  have a: "enact binary32_add G4 (prepare_frontier G4) (init G4 (constructed 0))
        = Some P4_final"
    by code_simp
  from enact_no_error_path[of binary32_add G6 "prepare_frontier G6" P6_stuck P6_stuck "[]"]
    enact_no_error_path[of binary32_add G4 "prepare_frontier G4" "init G4 (constructed 0)" _ "[]",
      THEN conjunct1, rule_format, OF a]
    G6_rounds a
  show ?thesis by simp
qed

text \<open>
  Claim C9 as stated fails. On two disjoint triangles every round runs to its end
  (no read is out of range); after the first round \<open>super_vertices[0] = 2\<close>; the second
  and every later round commit nothing and leave the state \<open>P6_stuck\<close>, which is not
  converged. The run never returns: no error is reported.
\<close>

theorem disconnected_counterexample:
  "loop binary32_add G6 (prepare_frontier G6) (init G6 (constructed 0)) = Some (P6_round1, [0, 5, 6, 11])
   \<and> loop binary32_add G6 (prepare_frontier G6) P6_round1 = Some (P6_stuck, [])
   \<and> loop binary32_add G6 (prepare_frontier G6) P6_stuck = Some (P6_stuck, [])
   \<and> super_vertices P6_stuck = [2]
   \<and> is_converged P6_stuck = Some False
   \<and> run binary32_add G6 0 = None"
proof -
  have "enact binary32_add G6 (prepare_frontier G6) P6_stuck = None"
    using G6_rounds(6,3) by (rule enact_stuck)
  then have "enact binary32_add G6 (prepare_frontier G6) P6_round1 = None"
    by (subst enact.simps) (simp add: G6_rounds)
  then have "enact binary32_add G6 (prepare_frontier G6) (init G6 (constructed 0)) = None"
    by (subst enact.simps) (simp add: G6_rounds)
  then have "run binary32_add G6 0 = None" by (simp add: run_def)
  moreover have "super_vertices P6_stuck = [2]" by code_simp
  ultimately show ?thesis using G6_rounds by simp
qed

subsection \<open>Float addition on non-negative floats\<close>











text \<open>Above \<open>2 ^ 24\<close> the floats are more than one apart: adding one to \<open>2 ^ 24\<close> is
  lost in the rounding, and a tie goes to the even significand.\<close>

lemma binary32_add_rounds:
  "binary32_add 16777216 1 = 16777216 \<and> binary32_add 16777216 3 = 16777220
   \<and> binary32_add 3 3 = 6 \<and> binary32_add 0 (- 1) = - 1"
  by code_simp


subsection \<open>Monotonicity of the scalars\<close>






subsection \<open>The edge ids read by the reciprocity checks\<close>

lemma filter_execute_snoc:
  "filter_execute g P (es @ [e]) = do {
     (P1, o1) \<leftarrow> filter_execute g P es;
     (P2, k) \<leftarrow> g P1 e;
     Some (P2, if k then o1 @ [e] else o1) }"
  by (simp add: filter_execute_append split: bind_splits prod.splits)

lemma relaxation_post:
  assumes "valid_graph G" "valid_state G P" "valid_frontier G f"
    and "\<forall>x \<in> set (min_weights P). x = weight_max"
  shows "\<exists>Q out. filter_execute (get_min_weights G) P f = Some (Q, out) \<and> relaxed G P f Q out"
  using assms(3)
proof (induction f rule: rev_induct)
  case Nil
  have "relaxed G P [] P []"
    using assms(4) by (auto simp: relaxed_def intro: exI[of _ "min_weights P"])
  then show ?case by simp
next
  case (snoc e es)
  from snoc.prems have ves: "valid_frontier G es" and ve: "valid_edge_id G e"
    by (simp_all add: valid_frontier_def valid_edge_id_def)
  from snoc.IH[OF ves] obtain Q out where
    run: "filter_execute (get_min_weights G) P es = Some (Q, out)" and rel: "relaxed G P es Q out"
    by blast
  from rel obtain mw where Q: "Q = P\<lparr>min_weights := mw\<rparr>"
    and len: "length mw = length (min_weights P)"
    and le: "\<forall>x \<in> set mw. x \<le> weight_max"
    and wit: "\<forall>c < length mw. mw ! c \<noteq> weight_max \<longrightarrow>
         (\<exists>e \<in> set out. component P (source_of G e) = int c \<and> weight_of G e = mw ! c)"
    and low: "\<forall>e \<in> set es. component P (source_of G e) \<noteq> component P (destination_of G e) \<longrightarrow>
         mw ! nat (component P (source_of G e)) \<le> weight_of G e"
    and sub: "set out \<subseteq> set es"
    and outs: "\<forall>e \<in> set out. component P (source_of G e) \<noteq> component P (destination_of G e)
         \<and> weight_of G e < weight_max"
    by (auto simp: relaxed_def)
  have vQ: "valid_state G Q" using assms(2) len by (simp add: Q valid_state_def)
  have compQ: "component Q v = component P v" for v by (simp add: Q component_def)
  note el = valid_edge_id_elem[OF ve]
  note v = valid_edge_id_vertices[OF assms(1) ve]
  note cs = valid_component[OF vQ v(1,2)]
  note cd = valid_component[OF vQ v(3,4)]
  note cell = valid_cells(1)[OF vQ cs(2,3)]
  define rs rd w where "rs = component P (source_of G e)" and "rd = component P (destination_of G e)"
    and "w = weight_of G e"
  define i where "i = nat rs"
  have rsb: "0 \<le> rs" "rs < int (number_of_vertices G)"
    using cs(2,3) unfolding compQ rs_def by simp_all
  have lmw: "length mw = number_of_vertices G"
    using len assms(2) by (simp add: valid_state_def)
  have i: "i < length mw" "rs = int i"
    using rsb lmw by (simp_all add: i_def)
  define old where "old = mw ! i"
  have oldle: "old \<le> weight_max" using le i(1) by (simp add: old_def)
  have step: "get_min_weights G Q e =
     Some (if rs = rd then (Q, False)
           else (Q\<lparr>min_weights := mw[i := min old w]\<rparr>, w < old))"
    using get_min_weights_eval[OF el cs(1) cd(1) cell]
    unfolding compQ by (simp add: rs_def rd_def w_def i_def old_def Q)
  show ?case
  proof (cases "rs = rd")
    case True
    have "relaxed G P (es @ [e]) Q out"
      unfolding relaxed_def
      using Q len le wit low sub outs True
      by (auto simp: rs_def rd_def)
    with run step True show ?thesis by (simp add: filter_execute_snoc)
  next
    case False
    let ?mw = "mw[i := min old w]"
    let ?Q = "P\<lparr>min_weights := ?mw\<rparr>"
    let ?out = "if w < old then out @ [e] else out"
    have mono: "?mw ! c \<le> mw ! c" if "c < length mw" for c
      using that by (cases "c = i") (simp_all add: old_def)
    have 1: "\<forall>x \<in> set ?mw. x \<le> weight_max"
    proof
      fix x assume "x \<in> set ?mw"
      then have "x = min old w \<or> x \<in> set mw"
        using set_update_subset_insert[of mw i "min old w"] by auto
      with le oldle show "x \<le> weight_max" by auto
    qed
    have 2: "\<exists>e' \<in> set ?out. component P (source_of G e') = int c \<and> weight_of G e' = ?mw ! c"
      if c: "c < length ?mw" and ne: "?mw ! c \<noteq> weight_max" for c
    proof (cases "c = i")
      case ci: True
      show ?thesis
      proof (cases "w < old")
        case True
        then have "?mw ! c = w" using ci i(1) by simp
        with True ci i(2) show ?thesis by (auto simp: rs_def w_def)
      next
        case nlt: False
        then have eq: "?mw ! c = mw ! c" using ci i(1) by (simp add: old_def min_def)
        with ne wit c obtain e' where "e' \<in> set out" "component P (source_of G e') = int c"
          "weight_of G e' = mw ! c" by auto
        with eq nlt show ?thesis by auto
      qed
    next
      case cn: False
      then have eq: "?mw ! c = mw ! c" by simp
      with ne wit c obtain e' where "e' \<in> set out" "component P (source_of G e') = int c"
        "weight_of G e' = mw ! c" by auto
      with eq show ?thesis by auto
    qed
    have 3: "?mw ! nat (component P (source_of G e')) \<le> weight_of G e'"
      if "e' \<in> set (es @ [e])"
        "component P (source_of G e') \<noteq> component P (destination_of G e')" for e'
    proof (cases "e' = e")
      case True
      then show ?thesis using i(1) by (simp add: rs_def[symmetric] i_def[symmetric] w_def)
    next
      case ne: False
      with that have e': "e' \<in> set es" by simp
      then have ve': "valid_edge_id G e'"
        using ves by (simp add: valid_frontier_def valid_edge_id_def)
      note v' = valid_edge_id_vertices[OF assms(1) ve']
      note c' = valid_component[OF assms(2) v'(1,2)]
      have "nat (component P (source_of G e')) < length mw"
        using c'(2,3) assms(2) len by (simp add: valid_state_def)
      from mono[OF this] low e' that(2) show ?thesis by force
    qed
    have 4: "set ?out \<subseteq> set (es @ [e])" using sub by auto
    have 5: "component P (source_of G e') \<noteq> component P (destination_of G e')
         \<and> weight_of G e' < weight_max" if "e' \<in> set ?out" for e'
    proof (cases "e' \<in> set out")
      case True
      with outs show ?thesis by simp
    next
      case nin: False
      with that have "e' = e" "w < old" by (auto split: if_splits)
      with False oldle show ?thesis by (simp add: rs_def rd_def w_def)
    qed
    have "relaxed G P (es @ [e]) ?Q ?out"
      unfolding relaxed_def
    proof (intro conjI)
      show "\<exists>mw. ?Q = P\<lparr>min_weights := mw\<rparr>" by blast
      show "length (min_weights ?Q) = length (min_weights P)" using len by simp
      show "\<forall>x \<in> set (min_weights ?Q). x \<le> weight_max" using 1 by simp
      show "\<forall>c < length (min_weights ?Q). min_weights ?Q ! c \<noteq> weight_max \<longrightarrow>
         (\<exists>e \<in> set ?out. component P (source_of G e) = int c \<and> weight_of G e = min_weights ?Q ! c)"
        using 2 by simp
      show "\<forall>e \<in> set (es @ [e]). component P (source_of G e) \<noteq> component P (destination_of G e) \<longrightarrow>
         min_weights ?Q ! nat (component P (source_of G e)) \<le> weight_of G e"
        using 3 by simp
      show "set ?out \<subseteq> set (es @ [e])" by (rule 4)
      show "\<forall>e \<in> set ?out. component P (source_of G e) \<noteq> component P (destination_of G e)
         \<and> weight_of G e < weight_max"
        using 5 by blast
    qed
    moreover have "filter_execute (get_min_weights G) P (es @ [e]) = Some (?Q, ?out)"
      using run step False by (simp add: filter_execute_snoc Q)
    ultimately show ?thesis by blast
  qed
qed

lemma filter_execute_subset:
  "filter_execute g P es = Some (P', out) \<Longrightarrow> set out \<subseteq> set es"
proof (induction es arbitrary: P out)
  case Nil
  then show ?case by simp
next
  case (Cons e es)
  from Cons.prems obtain P1 k out1 where
    "filter_execute g P1 es = Some (P', out1)" "out = (if k then e # out1 else out1)"
    by (auto split: bind_splits)
  with Cons.IH[of P1 out1] show ?case by auto
qed

lemma parallel_for_execute_total:
  assumes "\<And>Q v. I Q \<Longrightarrow> v \<in> set vs \<Longrightarrow> \<exists>Q'. f Q v = Some Q' \<and> I Q'" "I P"
  shows "\<exists>P'. parallel_for_execute f P vs = Some P' \<and> I P'"
  using assms
proof (induction vs arbitrary: P)
  case Nil
  then show ?case by simp
next
  case (Cons v vs)
  from Cons.prems(1)[OF Cons.prems(2), of v] obtain P1 where 1: "f P v = Some P1" "I P1" by auto
  have "\<exists>P'. parallel_for_execute f P1 vs = Some P' \<and> I P'"
  proof (rule Cons.IH[OF _ 1(2)])
    fix Q x assume "I Q" "x \<in> set vs"
    then show "\<exists>Q'. f Q x = Some Q' \<and> I Q'" by (intro Cons.prems(1)) simp_all
  qed
  with 1 show ?case by auto
qed

text \<open>After selection, every component whose \<open>min_weights\<close> cell was lowered has an
  elected edge: an edge of the frontier, leaving that component, of that weight.\<close>

lemma selection_post:
  assumes "valid_graph G" "valid_state G P" "valid_frontier G f"
    and "\<forall>x \<in> set (min_neighbors P). x = - 1"
    and "c < number_of_vertices G"
    and "\<exists>e \<in> set f. component P (source_of G e) = int c \<and> weight_of G e = min_weights P ! c"
  shows "selected G P f ! c \<in> set f
     \<and> component P (source_of G (selected G P f ! c)) = int c
     \<and> weight_of G (selected G P f ! c) = min_weights P ! c"
proof -
  let ?S = "{e \<in> set f. component P (source_of G e) = int c \<and> weight_of G e = min_weights P ! c}"
  have "c < length (min_neighbors P)" using assms(2,5) by (simp add: valid_state_def)
  then have "min_neighbors P ! c = - 1" using assms(4) by simp
  then have sel: "selected G P f ! c = Max (insert (- 1) ?S)"
    using assms(5) by (simp add: selected_def highest_Max candidates_set)
  have fin: "finite (insert (- 1) ?S)" by simp
  from assms(6) obtain e where e: "e \<in> ?S" by blast
  then have "0 \<le> e" using assms(3) by (auto simp: valid_frontier_def)
  moreover have "e \<le> Max (insert (- 1) ?S)" using e fin by (intro Max_ge) auto
  ultimately have "Max (insert (- 1) ?S) \<noteq> - 1" by linarith
  moreover have "Max (insert (- 1) ?S) \<in> insert (- 1) ?S" by (rule Max_in[OF fin]) simp
  ultimately have "Max (insert (- 1) ?S) \<in> ?S" by blast
  with sel show ?thesis by simp
qed

text \<open>In an undirected graph whose frontier held every edge, the component at the
  far end of an edge that joins two components and weighs less than the sentinel has
  had its \<open>min_weights\<close> cell lowered.\<close>

lemma reverse_edge_relaxed:
  assumes "valid_graph G" "undirected G" "valid_state G P" "relaxed G P f Q out"
    and "set (prepare_frontier G) \<subseteq> set f"
    and "valid_edge_id G e"
    and "component P (source_of G e) \<noteq> component P (destination_of G e)"
    and "weight_of G e < weight_max"
  shows "min_weights Q ! nat (component P (destination_of G e)) \<noteq> weight_max"
proof -
  have "edges G ! nat e \<in> set (edges G)"
    using assms(6) by (auto simp: valid_edge_id_def intro: nth_mem)
  then have "(source_of G e, destination_of G e, weight_of G e) \<in> set (edges G)"
    by (simp add: source_of_def destination_of_def weight_of_def)
  with assms(2) have "(destination_of G e, source_of G e, weight_of G e) \<in> set (edges G)"
    by (auto simp: undirected_def)
  then obtain j where j: "j < length (edges G)"
    "edges G ! j = (destination_of G e, source_of G e, weight_of G e)"
    by (auto simp: in_set_conv_nth)
  then have "int j \<in> set (prepare_frontier G)"
    by (simp add: prepare_frontier_def get_number_of_edges_def)
  with assms(5) have jf: "int j \<in> set f" by blast
  have sj: "source_of G (int j) = destination_of G e" "destination_of G (int j) = source_of G e"
    "weight_of G (int j) = weight_of G e"
    using j(2) by (simp_all add: source_of_def destination_of_def weight_of_def)
  from assms(4) jf assms(7) sj
  have "min_weights Q ! nat (component P (destination_of G e)) \<le> weight_of G e"
    unfolding relaxed_def by (metis (no_types, lifting))
  with assms(8) show ?thesis by simp
qed

lemma committed_valid:
  assumes "valid_graph G" "valid_state G Q" "0 \<le> v" "v < int (number_of_vertices G)"
    "valid_edge_id G (min_neighbors Q ! nat v)"
  shows "valid_state G (committed fadd G Q v)"
proof -
  note ev = valid_edge_id_vertices[OF assms(1,5)]
  let ?d = "destination_of G (min_neighbors Q ! nat v)"
  have "nat ?d < length (new_roots Q)" using ev(3,4) assms(2) by (simp add: valid_state_def)
  then have "new_roots Q ! nat ?d \<in> set (new_roots Q)" by (rule nth_mem)
  then have "set ((new_roots Q)[nat v := new_roots Q ! nat ?d]) \<subseteq> set (new_roots Q)"
    using set_update_subset_insert[of "new_roots Q" "nat v" "new_roots Q ! nat ?d"] by auto
  with assms(2) show ?thesis
    by (auto simp: valid_state_def committed_def)
qed

text \<open>
  Claim C10, as amended. For an undirected graph (every edge stored in both
  directions with one weight) and a round whose frontier holds every edge: the
  fills, the four filters and the commit phase run to their end with no read out of
  range; for every edge that reaches \<^verbatim>\<open>remove_dups\<close> the elected edge
  \<open>min_neighbors[roots[dest]]\<close> of its destination's component is a valid edge id;
  and for every vertex \<open>v\<close> on which \<^verbatim>\<open>add_to_mst\<close> passes its sentinel test, both
  \<open>min_neighbors[v]\<close> and the elected edge of the component of its destination are
  valid edge ids. The commit phase leaves \<open>roots\<close>, \<open>min_weights\<close> and
  \<open>min_neighbors\<close> alone, so this holds at every call of the phase.
\<close>

theorem elected_edges_valid:
  assumes "valid_graph G" "undirected G" "valid_state G P"
    and "valid_frontier G f" "set (prepare_frontier G) \<subseteq> set f"
  shows "\<exists>mw mn P1 f1 P2 f2 f3 f4 P5.
      fill_n (min_weights P) (get_number_of_vertices G) weight_max = Some mw
    \<and> fill_n (min_neighbors P) (get_number_of_vertices G) (- 1) = Some mn
    \<and> filter_execute (get_min_weights G) (P\<lparr>min_weights := mw, min_neighbors := mn\<rparr>) f = Some (P1, f1)
    \<and> filter_execute (get_min_neighbors G) P1 f1 = Some (P2, f2)
    \<and> filter_execute (remove_ties G) P2 f2 = Some (P2, f3)
    \<and> (\<forall>e \<in> set f3. valid_edge_id G (elected_edge P2 (destination_of G e)))
    \<and> filter_execute (remove_dups G) P2 f3 = Some (P2, f4)
    \<and> (\<forall>v < number_of_vertices G. min_weights P2 ! v \<noteq> weight_max \<longrightarrow>
          valid_edge_id G (min_neighbors P2 ! v)
        \<and> valid_edge_id G (elected_edge P2 (destination_of G (min_neighbors P2 ! v))))
    \<and> parallel_for_execute (add_to_mst fadd G) P2 (vertices G) = Some P5
    \<and> roots P5 = roots P2 \<and> min_weights P5 = min_weights P2
    \<and> min_neighbors P5 = min_neighbors P2"
proof -
  let ?n = "number_of_vertices G"
  define mw mn where "mw = replicate ?n weight_max" and "mn = replicate ?n (- 1 :: int)"
  define P0 where "P0 = P\<lparr>min_weights := mw, min_neighbors := mn\<rparr>"
  have fills: "fill_n (min_weights P) (get_number_of_vertices G) weight_max = Some mw"
    "fill_n (min_neighbors P) (get_number_of_vertices G) (- 1) = Some mn"
    using assms(3) by (simp_all add: fill_n_def get_number_of_vertices_def valid_state_def mw_def mn_def)
  have v0: "valid_state G P0" using assms(3) by (simp add: P0_def valid_state_def mw_def mn_def)
  have reset: "\<forall>x \<in> set (min_weights P0). x = weight_max" "\<forall>x \<in> set (min_neighbors P0). x = - 1"
    by (simp_all add: P0_def mw_def mn_def)
  from relaxation_post[OF assms(1) v0 assms(4) reset(1)] obtain P1 f1 where
    r1: "filter_execute (get_min_weights G) P0 f = Some (P1, f1)" and rel: "relaxed G P0 f P1 f1"
    by blast
  from rel obtain mw1 where P1: "P1 = P0\<lparr>min_weights := mw1\<rparr>" and len1: "length mw1 = ?n"
    using v0 by (auto simp: relaxed_def valid_state_def)
  have v1: "valid_state G P1" using v0 len1 by (simp add: P1 valid_state_def)
  have sub1: "set f1 \<subseteq> set f" using rel by (simp add: relaxed_def)
  have vf1: "valid_frontier G f1" using sub1 assms(4) by (auto simp: valid_frontier_def)
  have comp1: "component P1 v = component P0 v" for v by (simp add: P1 component_def)
  have reset1: "\<forall>x \<in> set (min_neighbors P1). x = - 1" using reset(2) by (simp add: P1)
  define P2 where "P2 = P1\<lparr>min_neighbors := selected G P1 f1\<rparr>"
  from selection_phase_result[OF assms(1) v1 vf1] obtain f2 where
    r2: "filter_execute (get_min_neighbors G) P1 f1 = Some (P2, f2)"
    unfolding P2_def by blast
  have sub2: "set f2 \<subseteq> set f1" using r2 by (rule filter_execute_subset)
  have v2: "valid_state G P2" using v1 by (simp add: P2_def valid_state_def selected_def)
  have comp2: "component P2 v = component P0 v" for v by (simp add: P2_def P1 component_def)
  have fields2: "min_weights P2 = mw1" "min_neighbors P2 = selected G P1 f1"
    by (simp_all add: P2_def P1)
  \<comment> \<open>every edge that survives relaxation joins two components and weighs less than the sentinel\<close>
  have surv: "valid_edge_id G e \<and> component P0 (source_of G e) \<noteq> component P0 (destination_of G e)
      \<and> weight_of G e < weight_max" if "e \<in> set f1" for e
    using that rel vf1 by (auto simp: relaxed_def intro: valid_frontier_id)
  \<comment> \<open>a lowered cell has an elected edge, which survived relaxation\<close>
  have elect: "min_neighbors P2 ! c \<in> set f1 \<and> component P0 (source_of G (min_neighbors P2 ! c)) = int c"
    if c: "c < ?n" and low: "min_weights P2 ! c \<noteq> weight_max" for c
  proof -
    from rel c low len1 have "\<exists>e \<in> set f1. component P0 (source_of G e) = int c
        \<and> weight_of G e = min_weights P1 ! c"
      unfolding relaxed_def by (simp add: fields2 P1)
    then have "\<exists>e \<in> set f1. component P1 (source_of G e) = int c
        \<and> weight_of G e = min_weights P1 ! c"
      unfolding comp1 .
    from selection_post[OF assms(1) v1 vf1 reset1 c this] show ?thesis
      unfolding comp1 by (simp add: fields2)
  qed
  \<comment> \<open>the far end of a surviving edge has an elected edge\<close>
  have far: "valid_edge_id G (elected_edge P2 (destination_of G e))" if "e \<in> set f1" for e
  proof -
    note s = surv[OF that]
    from s have ve: "valid_edge_id G e" by simp
    note vv = valid_edge_id_vertices[OF assms(1) ve]
    note cd = valid_component[OF v0 vv(3,4)]
    define c where "c = nat (component P0 (destination_of G e))"
    have c: "c < ?n" "int c = component P0 (destination_of G e)" using cd(2,3) by (simp_all add: c_def)
    from reverse_edge_relaxed[OF assms(1,2) v0 rel assms(5) ve] s
    have "min_weights P2 ! c \<noteq> weight_max" by (simp add: c_def fields2 P1)
    from elect[OF c(1) this] have "min_neighbors P2 ! c \<in> set f1" by simp
    from surv[OF this] show ?thesis by (simp add: elected_edge_def comp2 c_def)
  qed
  \<comment> \<open>the two filters of symmetry breaking\<close>
  define f3 where "f3 = filter (keeps_elected_only G P2) f2"
  define f4 where "f4 = filter (keeps_reciprocity G P2) f3"
  have ids2: "valid_edge_id G e" if "e \<in> set f2" for e using that sub2 surv by blast
  have r3: "filter_execute (remove_ties G) P2 f2 = Some (P2, f3)"
    unfolding f3_def by (rule filter_execute_pure) (simp add: remove_ties_eval[OF assms(1) v2] ids2)
  have sub3: "set f3 \<subseteq> set f1" using sub2 by (auto simp: f3_def)
  have far3: "\<forall>e \<in> set f3. valid_edge_id G (elected_edge P2 (destination_of G e))"
    using sub3 far by blast
  have r4: "filter_execute (remove_dups G) P2 f3 = Some (P2, f4)"
    unfolding f4_def
  proof (rule filter_execute_pure)
    fix e assume e: "e \<in> set f3"
    with sub3 surv have "valid_edge_id G e" by blast
    with far3 e show "remove_dups G P2 e = Some (P2, keeps_reciprocity G P2 e)"
      by (intro remove_dups_eval[OF assms(1) v2]) simp_all
  qed
  \<comment> \<open>the commit phase\<close>
  have reads: "valid_edge_id G (min_neighbors P2 ! v)
        \<and> valid_edge_id G (elected_edge P2 (destination_of G (min_neighbors P2 ! v)))"
    if "v < ?n" "min_weights P2 ! v \<noteq> weight_max" for v
    using elect[OF that] surv far by blast
  let ?I = "\<lambda>Q. valid_state G Q \<and> roots Q = roots P2 \<and> min_weights Q = min_weights P2
     \<and> min_neighbors Q = min_neighbors P2"
  have step: "\<exists>Q'. add_to_mst fadd G Q v = Some Q' \<and> ?I Q'" if I: "?I Q" and v: "v \<in> set (vertices G)" for Q v
  proof -
    from v have vb: "0 \<le> v" "v < int ?n" "nat v < ?n"
      by (auto simp: vertices_def get_number_of_vertices_def)
    have el: "elected_edge Q x = elected_edge P2 x" for x
      using I by (simp add: elected_edge_def component_def)
    have hyp: "min_weights Q ! nat v \<noteq> weight_max \<longrightarrow>
           valid_edge_id G (min_neighbors Q ! nat v)
         \<and> (\<not> source_of G (min_neighbors Q ! nat v) < destination_of G (min_neighbors Q ! nat v)
              \<longrightarrow> valid_edge_id G (elected_edge Q (destination_of G (min_neighbors Q ! nat v))))"
      using reads[OF vb(3)] I by (simp add: el)
    from I have vQ: "valid_state G Q" by simp
    note ev = add_to_mst_eval[OF assms(1) vQ vb(1,2) hyp]
    show ?thesis
    proof (cases "commits G Q v")
      case True
      then have "min_weights Q ! nat v \<noteq> weight_max" by (simp add: commits_def)
      with hyp have "valid_edge_id G (min_neighbors Q ! nat v)" by simp
      from committed_valid[OF assms(1) vQ vb(1,2) this] I True ev show ?thesis
        by (simp add: committed_def)
    next
      case False
      with ev I show ?thesis by simp
    qed
  qed
  from parallel_for_execute_total[of ?I "vertices G" "add_to_mst fadd G" P2, OF step] v2
  obtain P5 where r5: "parallel_for_execute (add_to_mst fadd G) P2 (vertices G) = Some P5" and "?I P5"
    by blast
  with fills r1 r2 r3 far3 r4 reads show ?thesis
    unfolding P0_def by blast
qed

theorem elected_edges_valid_witness:
  "valid_graph G4 \<and> undirected G4 \<and> valid_state G4 (init G4 (constructed 0))
   \<and> valid_frontier G4 (prepare_frontier G4)
   \<and> set (prepare_frontier G4) \<subseteq> set (prepare_frontier G4)
   \<and> (\<exists>mw mn P1 f1 P2 f2 f3 f4 P5.
        filter_execute (get_min_weights G4)
          (init G4 (constructed 0)\<lparr>min_weights := mw, min_neighbors := mn\<rparr>) (prepare_frontier G4)
          = Some (P1, f1)
      \<and> filter_execute (get_min_neighbors G4) P1 f1 = Some (P2, f2)
      \<and> filter_execute (remove_ties G4) P2 f2 = Some (P2, f3)
      \<and> filter_execute (remove_dups G4) P2 f3 = Some (P2, f4)
      \<and> parallel_for_execute (add_to_mst binary32_add G4) P2 (vertices G4) = Some P5)"
proof -
  have 1: "valid_graph G4" by code_simp
  have 2: "undirected G4" by code_simp
  have 3: "valid_state G4 (init G4 (constructed 0))" by code_simp
  have 4: "valid_frontier G4 (prepare_frontier G4)" by code_simp
  have 5: "set (prepare_frontier G4) \<subseteq> set (prepare_frontier G4)" by simp
  from elected_edges_valid[OF 1 2 3 4 5, where fadd = binary32_add] 1 2 3 4 5 show ?thesis by blast
qed

text \<open>
  Claim C10 as stated fails. The graph \<open>G2_directed\<close> has the single directed edge
  0, from vertex 1 to vertex 0. It survives relaxation, selection and
  \<^verbatim>\<open>remove_ties\<close>. Its source 1 is not below its destination 0, so \<^verbatim>\<open>remove_dups\<close>
  reads the elected edge of the component of vertex 0, which is the sentinel \<open>-1\<close>: no
  edge leaves vertex 0. The call of \<^verbatim>\<open>get_destination_vertex\<close> with \<open>-1\<close> is a read out
  of range; the same happens in \<^verbatim>\<open>add_to_mst\<close> for vertex 1.
\<close>

theorem valid_reads_counterexample:
  "filter_execute (get_min_weights G2_directed) (init G2_directed (constructed 0)) [0]
     = Some (P2_directed_relaxed, [0])
   \<and> filter_execute (get_min_neighbors G2_directed) P2_directed_relaxed [0]
     = Some (P2_directed_elected, [0])
   \<and> filter_execute (remove_ties G2_directed) P2_directed_elected [0]
     = Some (P2_directed_elected, [0])
   \<and> source_of G2_directed 0 = 1 \<and> destination_of G2_directed 0 = 0
   \<and> elected_edge P2_directed_elected (destination_of G2_directed 0) = - 1
   \<and> get_destination_vertex G2_directed (- 1) = None
   \<and> remove_dups G2_directed P2_directed_elected 0 = None
   \<and> add_to_mst binary32_add G2_directed P2_directed_elected 1 = None
   \<and> loop binary32_add G2_directed (prepare_frontier G2_directed) (init G2_directed (constructed 0)) = None"
  by code_simp

end
